theory Spec2Isabelle
  imports Main
begin

text \<open>
  The image spider of \<open>spider_project/spider.py\<close>: the methods of the class \<open>Spider\<close> as
  functions over an explicit state and an explicit outside world, the library functions they
  call (\<open>urllib.parse\<close>, \<open>os.path\<close>) written out, and what holds of them.
\<close>

section \<open>Python strings\<close>

text \<open>
  A Python \<open>str\<close> is modelled as an Isabelle \<open>string\<close>: a list of characters whose
  code points lie below 256.  The string methods the spider calls are written out as list
  functions.
\<close>

definition ascii_letters :: string where
  "ascii_letters = ''abcdefghijklmnopqrstuvwxyzABCDEFGHIJKLMNOPQRSTUVWXYZ''"

text \<open>\<open>str.isspace\<close> on code points below 256, as \<open>str.strip()\<close> with no argument uses it.\<close>

definition is_space :: "char \<Rightarrow> bool" where
  "is_space c = (let n = (of_char c :: nat) in
     (9 \<le> n \<and> n \<le> 13) \<or> (28 \<le> n \<and> n \<le> 32) \<or> n = 133 \<or> n = 160)"

text \<open>\<open>str.lower\<close> on code points below 256: A-Z and the upper-case letters of Latin-1.\<close>

definition lower_char :: "char \<Rightarrow> char" where
  "lower_char c = (let n = (of_char c :: nat) in
     if (65 \<le> n \<and> n \<le> 90) \<or> (192 \<le> n \<and> n \<le> 222 \<and> n \<noteq> 215)
     then char_of (n + 32) else c)"

definition lower :: "string \<Rightarrow> string" where
  "lower s = map lower_char s"

definition lstrip :: "(char \<Rightarrow> bool) \<Rightarrow> string \<Rightarrow> string" where
  "lstrip P s = dropWhile P s"

definition rstrip :: "(char \<Rightarrow> bool) \<Rightarrow> string \<Rightarrow> string" where
  "rstrip P s = rev (dropWhile P (rev s))"

definition strip :: "(char \<Rightarrow> bool) \<Rightarrow> string \<Rightarrow> string" where
  "strip P s = rstrip P (lstrip P s)"

definition startswith :: "string \<Rightarrow> string \<Rightarrow> bool" where
  "startswith s p = (take (length p) s = p)"

definition endswith :: "string \<Rightarrow> string \<Rightarrow> bool" where
  "endswith s p = startswith (rev s) (rev p)"

text \<open>\<open>s[:s.find(c)]\<close> and \<open>s[s.find(c)+1:]\<close> for a character \<open>c\<close> that occurs in \<open>s\<close>.\<close>

definition str_before :: "char \<Rightarrow> string \<Rightarrow> string" where
  "str_before c s = takeWhile (\<lambda>x. x \<noteq> c) s"

definition str_after :: "char \<Rightarrow> string \<Rightarrow> string" where
  "str_after c s = drop 1 (dropWhile (\<lambda>x. x \<noteq> c) s)"

text \<open>\<open>s[:s.rfind(c)+1]\<close> and \<open>s[s.rfind(c)+1:]\<close>; the first is empty and the second is
  \<open>s\<close> when \<open>c\<close> does not occur, as with \<open>rfind\<close> returning -1.\<close>

definition upto_last :: "char \<Rightarrow> string \<Rightarrow> string" where
  "upto_last c s = rev (dropWhile (\<lambda>x. x \<noteq> c) (rev s))"

definition after_last :: "char \<Rightarrow> string \<Rightarrow> string" where
  "after_last c s = rev (takeWhile (\<lambda>x. x \<noteq> c) (rev s))"

section \<open>urllib.parse\<close>

text \<open>
  \<open>urlparse\<close> is the standard library's (CPython 3.11, \<open>urllib/parse.py\<close>).  Two of its
  checks are not string manipulation: \<open>_check_bracketed_host\<close>, which asks the
  \<open>ipaddress\<close> module whether a bracketed host is an IPv6 or IPvFuture address, is taken as
  the parameter \<open>chk\<close>; \<open>_checknetloc\<close> looks at the NFKC form of a non-ASCII host and
  never raises on code points below 256, so it has no branch here.
\<close>

datatype error = ValueError | NameError | OSError

record parse_result =
  scheme :: string
  netloc :: string
  path :: string
  params :: string
  query :: string
  fragment :: string

definition scheme_chars :: string where
  "scheme_chars = ''abcdefghijklmnopqrstuvwxyzABCDEFGHIJKLMNOPQRSTUVWXYZ0123456789+-.''"

definition uses_params :: "string list" where
  "uses_params = ['''', ''ftp'', ''hdl'', ''prospero'', ''http'', ''imap'',
                  ''https'', ''shttp'', ''rtsp'', ''rtsps'', ''rtspu'', ''sip'',
                  ''sips'', ''mms'', ''sftp'', ''tel'']"

definition c0_control_or_space :: "char \<Rightarrow> bool" where
  "c0_control_or_space c = ((of_char c :: nat) \<le> 32)"

definition unsafe_url_byte :: "char \<Rightarrow> bool" where
  "unsafe_url_byte c = (c = CHR 0x09 \<or> c = CHR 0x0D \<or> c = CHR 0x0A)"

definition netloc_delim :: "char \<Rightarrow> bool" where
  "netloc_delim c = (c = CHR ''/'' \<or> c = CHR ''?'' \<or> c = CHR ''#'')"

definition splitnetloc :: "string \<Rightarrow> string \<times> string" where
  "splitnetloc url = (takeWhile (\<lambda>c. \<not> netloc_delim c) (drop 2 url),
                      dropWhile (\<lambda>c. \<not> netloc_delim c) (drop 2 url))"

text \<open>
  \<open>urlsplit\<close> in the order of its statements: the scheme is split off at the first colon
  when a letter starts the URL and only scheme characters precede the colon
  (\<open>split_scheme\<close>); then the network location, the fragment and the query are split off
  and the brackets of the network location are checked (\<open>split_rest\<close>); before both, the
  URL and the default scheme are stripped and cleaned of tabs and line breaks.
\<close>

definition split_scheme :: "string \<Rightarrow> string \<Rightarrow> string \<times> string" where
  "split_scheme url scheme0 =
    (if CHR '':'' \<in> set url \<and> str_before CHR '':'' url \<noteq> [] \<and>
        hd url \<in> set ascii_letters \<and>
        list_all (\<lambda>c. c \<in> set scheme_chars) (str_before CHR '':'' url)
     then (lower (str_before CHR '':'' url), str_after CHR '':'' url)
     else (scheme0, url))"

definition split_rest :: "(string \<Rightarrow> bool) \<Rightarrow> string \<Rightarrow> string \<Rightarrow> error + (string \<times> string \<times> string \<times> string \<times> string)" where
  "split_rest chk scheme0 url =
    (let has_netloc = (take 2 url = ''//'');
         netloc0 = (if has_netloc then fst (splitnetloc url) else []);
         url1 = (if has_netloc then snd (splitnetloc url) else url);
         fragment0 = (if CHR ''#'' \<in> set url1 then str_after CHR ''#'' url1 else []);
         url2 = (if CHR ''#'' \<in> set url1 then str_before CHR ''#'' url1 else url1);
         query0 = (if CHR ''?'' \<in> set url2 then str_after CHR ''?'' url2 else []);
         url3 = (if CHR ''?'' \<in> set url2 then str_before CHR ''?'' url2 else url2)
     in if has_netloc \<and> ((CHR ''['' \<in> set netloc0 \<and> CHR '']'' \<notin> set netloc0) \<or>
                          (CHR '']'' \<in> set netloc0 \<and> CHR ''['' \<notin> set netloc0))
        then Inl ValueError
        else if has_netloc \<and> CHR ''['' \<in> set netloc0 \<and> CHR '']'' \<in> set netloc0 \<and>
                \<not> chk (str_before CHR '']'' (str_after CHR ''['' netloc0))
        then Inl ValueError
        else Inr (scheme0, netloc0, url3, query0, fragment0))"

definition urlsplit :: "(string \<Rightarrow> bool) \<Rightarrow> string \<Rightarrow> string \<Rightarrow> error + (string \<times> string \<times> string \<times> string \<times> string)" where
  "urlsplit chk url scheme0 =
    (let url1 = filter (\<lambda>c. \<not> unsafe_url_byte c) (lstrip c0_control_or_space url);
         scheme1 = filter (\<lambda>c. \<not> unsafe_url_byte c) (strip c0_control_or_space scheme0)
     in split_rest chk (fst (split_scheme url1 scheme1)) (snd (split_scheme url1 scheme1)))"

definition splitparams :: "string \<Rightarrow> string \<times> string" where
  "splitparams url =
    (if CHR ''/'' \<in> set url then
       (if CHR '';'' \<in> set (after_last CHR ''/'' url)
        then (upto_last CHR ''/'' url @ str_before CHR '';'' (after_last CHR ''/'' url),
              str_after CHR '';'' (after_last CHR ''/'' url))
        else (url, []))
     else if CHR '';'' \<in> set url then (str_before CHR '';'' url, str_after CHR '';'' url)
     else (butlast url, url))"

definition urlparse :: "(string \<Rightarrow> bool) \<Rightarrow> string \<Rightarrow> string \<Rightarrow> error + parse_result" where
  "urlparse chk url scheme0 =
    (case urlsplit chk url scheme0 of
       Inl e \<Rightarrow> Inl e
     | Inr (scheme2, netloc2, url2, query2, fragment2) \<Rightarrow>
         if scheme2 \<in> set uses_params \<and> CHR '';'' \<in> set url2
         then Inr \<lparr>scheme = scheme2, netloc = netloc2, path = fst (splitparams url2),
                   params = snd (splitparams url2), query = query2, fragment = fragment2\<rparr>
         else Inr \<lparr>scheme = scheme2, netloc = netloc2, path = url2,
                   params = [], query = query2, fragment = fragment2\<rparr>)"

definition uses_relative :: "string list" where
  "uses_relative = ['''', ''ftp'', ''http'', ''gopher'', ''nntp'', ''imap'',
                    ''wais'', ''file'', ''https'', ''shttp'', ''mms'',
                    ''prospero'', ''rtsp'', ''rtsps'', ''rtspu'', ''sftp'',
                    ''svn'', ''svn+ssh'', ''ws'', ''wss'']"

definition uses_netloc :: "string list" where
  "uses_netloc = ['''', ''ftp'', ''http'', ''gopher'', ''nntp'', ''telnet'',
                  ''imap'', ''wais'', ''file'', ''mms'', ''https'', ''shttp'',
                  ''snews'', ''prospero'', ''rtsp'', ''rtsps'', ''rtspu'', ''rsync'',
                  ''svn'', ''svn+ssh'', ''sftp'', ''nfs'', ''git'', ''git+ssh'',
                  ''ws'', ''wss'']"

definition urlunsplit :: "string \<Rightarrow> string \<Rightarrow> string \<Rightarrow> string \<Rightarrow> string \<Rightarrow> string" where
  "urlunsplit scheme0 netloc0 url0 query0 fragment0 =
    (let url1 = (if netloc0 \<noteq> [] \<or> (scheme0 \<noteq> [] \<and> scheme0 \<in> set uses_netloc) \<or> take 2 url0 = ''//''
                 then ''//'' @ netloc0 @ (if url0 \<noteq> [] \<and> take 1 url0 \<noteq> ''/'' then ''/'' @ url0 else url0)
                 else url0);
         url2 = (if scheme0 \<noteq> [] then scheme0 @ '':'' @ url1 else url1);
         url3 = (if query0 \<noteq> [] then url2 @ ''?'' @ query0 else url2)
     in if fragment0 \<noteq> [] then url3 @ ''#'' @ fragment0 else url3)"

definition urlunparse :: "parse_result \<Rightarrow> string" where
  "urlunparse c =
    urlunsplit (scheme c) (netloc c)
      (if params c \<noteq> [] then path c @ '';'' @ params c else path c) (query c) (fragment c)"

text \<open>\<open>s.split(c)\<close> and \<open>sep.join(parts)\<close>.\<close>

fun split_on :: "char \<Rightarrow> string \<Rightarrow> string list" where
  "split_on c [] = [[]]"
| "split_on c (x # xs) =
     (if x = c then [] # split_on c xs
      else (case split_on c xs of [] \<Rightarrow> [[x]] | y # ys \<Rightarrow> (x # y) # ys))"

fun join_with :: "string \<Rightarrow> string list \<Rightarrow> string" where
  "join_with sep [] = []"
| "join_with sep [x] = x"
| "join_with sep (x # y # ys) = x @ sep @ join_with sep (y # ys)"

text \<open>\<open>segments[1:-1] = filter(None, segments[1:-1])\<close>.\<close>

definition filter_middle :: "string list \<Rightarrow> string list" where
  "filter_middle segments =
    (case segments of
       [] \<Rightarrow> []
     | x # rest \<Rightarrow> if rest = [] then [x]
                   else x # filter (\<lambda>seg. seg \<noteq> []) (butlast rest) @ [last rest])"

text \<open>The loop over \<open>segments\<close>; popping from an empty \<open>resolved_path\<close> is ignored.\<close>

fun resolve_segments :: "string list \<Rightarrow> string list \<Rightarrow> string list" where
  "resolve_segments [] resolved_path = resolved_path"
| "resolve_segments (seg # segments) resolved_path =
     (if seg = ''..'' then resolve_segments segments (butlast resolved_path)
      else if seg = ''.'' then resolve_segments segments resolved_path
      else resolve_segments segments (resolved_path @ [seg]))"

definition urljoin :: "(string \<Rightarrow> bool) \<Rightarrow> string \<Rightarrow> string \<Rightarrow> error + string" where
  "urljoin chk base url =
    (if base = [] then Inr url
     else if url = [] then Inr base
     else
       (case urlparse chk base [] of
          Inl e \<Rightarrow> Inl e
        | Inr b \<Rightarrow>
            (case urlparse chk url (scheme b) of
               Inl e \<Rightarrow> Inl e
             | Inr u \<Rightarrow>
                 if scheme u \<noteq> scheme b \<or> scheme u \<notin> set uses_relative then Inr url
                 else if scheme u \<in> set uses_netloc \<and> netloc u \<noteq> [] then Inr (urlunparse u)
                 else
                   (let netloc1 = (if scheme u \<in> set uses_netloc then netloc b else netloc u) in
                    if path u = [] \<and> params u = [] then
                      Inr (urlunparse (u\<lparr>netloc := netloc1, path := path b, params := params b,
                                         query := (if query u = [] then query b else query u)\<rparr>))
                    else
                      (let base_parts0 = split_on CHR ''/'' (path b);
                           base_parts = (if last base_parts0 \<noteq> [] then butlast base_parts0
                                         else base_parts0);
                           segments = (if take 1 (path u) = ''/'' then split_on CHR ''/'' (path u)
                                       else filter_middle (base_parts @ split_on CHR ''/'' (path u)));
                           resolved0 = resolve_segments segments [];
                           resolved_path = (if last segments \<in> set [''.'', ''..'']
                                            then resolved0 @ [[]] else resolved0);
                           joined = join_with ''/'' resolved_path
                       in Inr (urlunparse (u\<lparr>netloc := netloc1,
                                              path := (if joined = [] then ''/'' else joined)\<rparr>)))))))"

section \<open>os.path (posixpath) and str(int)\<close>

definition basename :: "string \<Rightarrow> string" where
  "basename p = after_last CHR ''/'' p"

text \<open>\<open>splitext\<close>: the extension starts at the last dot of the last path component,
  unless only dots precede it there.\<close>

definition splitext :: "string \<Rightarrow> string \<times> string" where
  "splitext p =
    (let tail = after_last CHR ''/'' p;
         stem = butlast (upto_last CHR ''.'' tail)
     in if CHR ''.'' \<in> set tail \<and> list_ex (\<lambda>c. c \<noteq> CHR ''.'') stem
        then (upto_last CHR ''/'' p @ stem, CHR ''.'' # after_last CHR ''.'' tail)
        else (p, []))"

definition path_join :: "string \<Rightarrow> string \<Rightarrow> string" where
  "path_join a b =
    (if startswith b ''/'' then b
     else if a = [] \<or> endswith a ''/'' then a @ b
     else a @ ''/'' @ b)"

definition digit_char :: "nat \<Rightarrow> char" where
  "digit_char d = char_of (48 + d)"

function str_nat :: "nat \<Rightarrow> string" where
  "str_nat n = (if n < 10 then [digit_char n] else str_nat (n div 10) @ [digit_char (n mod 10)])"
  by pat_completeness auto

termination
  by (relation "measure (\<lambda>n. n)") auto

declare str_nat.simps [simp del]

section \<open>The spider: URL validation and normalisation\<close>

definition is_valid_url :: "(string \<Rightarrow> bool) \<Rightarrow> string \<Rightarrow> bool" where
  "is_valid_url chk url =
    (case urlparse chk url [] of
       Inl e \<Rightarrow> False
     | Inr parsed \<Rightarrow> scheme parsed \<in> set [''http'', ''https''] \<and> netloc parsed \<noteq> [])"

definition normalize_url :: "(string \<Rightarrow> bool) \<Rightarrow> string \<Rightarrow> error + string" where
  "normalize_url chk url =
    (case urlparse chk url [] of
       Inl e \<Rightarrow> Inl e
     | Inr parsed \<Rightarrow>
         Inr (scheme parsed @ ''://'' @ netloc parsed @ rstrip (\<lambda>c. c = CHR ''/'') (path parsed)))"

section \<open>The spider's world\<close>

text \<open>
  What the spider reads from outside is a parameter \<open>env\<close>.  The answer of the network to
  a request depends on the number of requests made before it, so the same URL requested twice
  may be answered differently.  \<open>None\<close> stands for a call that raises (a
  \<open>RequestException\<close> or a timeout for \<open>session.get\<close>, anything for \<open>session.head\<close>).
  A response carries what the spider reads from it: the status, the \<open>Content-Type\<close>
  header if present, the \<open>href\<close> values of its \<open>a\<close> elements and the \<open>src\<close> values
  of its \<open>img\<close> elements in document order (what \<open>find_all\<close> returns on the parsed
  text), and its content.  \<open>list_of_set\<close> is the order in which \<open>list\<close> enumerates a
  set, given its elements in insertion order.  \<open>guess_extension\<close> is
  \<open>mimetypes.guess_extension\<close>, and \<open>open_ok\<close> tells for which paths \<open>open(path, 'wb')\<close>
  succeeds.

  Outside the model: the interpreter's recursion limit, other processes that change the
  files during the run, and a response body that breaks off while it is written.
\<close>

record response =
  status_code :: int
  content_type :: "string option"
  hrefs :: "string list"
  srcs :: "string list"
  content :: string

record env =
  check_bracketed_host :: "string \<Rightarrow> bool"
  session_get :: "nat \<Rightarrow> string \<Rightarrow> response option"
  session_head :: "nat \<Rightarrow> string \<Rightarrow> (int \<times> string option) option"
  guess_extension :: "string \<Rightarrow> string option"
  list_of_set :: "string list \<Rightarrow> string list"
  open_ok :: "string \<Rightarrow> bool"

datatype request = GET string | HEAD string

datatype message =
    Crawling string int
  | ErrorFetching string
  | Downloaded string string
  | FailedToDownload string error

text \<open>
  The state is the \<open>Spider\<close> object (\<open>visited\<close>, \<open>download_path\<close>) together with
  what the run has printed, the requests it has sent and the files that exist.
\<close>

record state =
  visited :: "string set"
  download_path :: string
  stdout :: "message list"
  requests :: "request list"
  files :: "(string \<times> string) list"

definition set_add :: "string \<Rightarrow> string list \<Rightarrow> string list" where
  "set_add x xs = (if x \<in> set xs then xs else xs @ [x])"

section \<open>The spider: fetching and extraction\<close>

text \<open>\<open>raise_for_status\<close> raises for a status from 400 to 599; a response that passes it
  is truthy, so \<open>if not response\<close> is taken exactly when \<open>get_page\<close> returned \<open>None\<close>.\<close>

definition get_page :: "env \<Rightarrow> string \<Rightarrow> state \<Rightarrow> response option \<times> state" where
  "get_page env url s =
    (let s1 = s\<lparr>requests := requests s @ [GET url]\<rparr> in
     case session_get env (length (requests s)) url of
       None \<Rightarrow> (None, s1\<lparr>stdout := stdout s1 @ [ErrorFetching url]\<rparr>)
     | Some r \<Rightarrow>
         if 400 \<le> status_code r \<and> status_code r < 600
         then (None, s1\<lparr>stdout := stdout s1 @ [ErrorFetching url]\<rparr>)
         else (Some r, s1))"

text \<open>The loop of \<open>get_all_links\<close> over the anchors, with the set \<open>links\<close> built so far.\<close>

fun links_loop :: "env \<Rightarrow> string \<Rightarrow> string list \<Rightarrow> string list \<Rightarrow> error + string list" where
  "links_loop env base_url [] links = Inr links"
| "links_loop env base_url (a # anchors) links =
     (let href = strip is_space a in
      if startswith href ''#'' then links_loop env base_url anchors links
      else if startswith href ''javascript:'' then links_loop env base_url anchors links
      else
        (case urljoin (check_bracketed_host env) base_url href of
           Inl e \<Rightarrow> Inl e
         | Inr absolute_url \<Rightarrow>
             (case normalize_url (check_bracketed_host env) absolute_url of
                Inl e \<Rightarrow> Inl e
              | Inr normalized_url \<Rightarrow>
                  if is_valid_url (check_bracketed_host env) normalized_url
                  then links_loop env base_url anchors (set_add normalized_url links)
                  else links_loop env base_url anchors links)))"

definition get_all_links :: "env \<Rightarrow> string \<Rightarrow> string \<Rightarrow> state \<Rightarrow> (error + string list) \<times> state" where
  "get_all_links env url base_url s =
    (case get_page env url s of
       (None, s1) \<Rightarrow> (Inr [], s1)
     | (Some r, s1) \<Rightarrow>
         (case links_loop env base_url (hrefs r) [] of
            Inl e \<Rightarrow> (Inl e, s1)
          | Inr links \<Rightarrow> (Inr (list_of_set env links), s1)))"

text \<open>\<open>t in s\<close> for strings.\<close>

fun contains :: "string \<Rightarrow> string \<Rightarrow> bool" where
  "contains [] t = (t = [])"
| "contains (c # cs) t = (startswith (c # cs) t \<or> contains cs t)"

definition image_extensions :: "string list" where
  "image_extensions = [''.jpg'', ''.jpeg'', ''.png'', ''.gif'', ''.bmp'']"

definition image_types :: "string list" where
  "image_types = [''image/jpeg'', ''image/png'', ''image/gif'', ''image/bmp'']"

text \<open>
  The classification of one candidate in \<open>get_all_images\<close>: \<open>Inr (Some b)\<close> is
  \<open>is_image = b\<close>, \<open>Inr None\<close> is the \<open>continue\<close> of the bare \<open>except\<close>, and
  \<open>Inl\<close> is the \<open>ValueError\<close> of \<open>urlparse\<close>, which nothing catches.
\<close>

definition is_image :: "env \<Rightarrow> string \<Rightarrow> state \<Rightarrow> (error + bool option) \<times> state" where
  "is_image env absolute_url s =
    (case urlparse (check_bracketed_host env) absolute_url [] of
       Inl e \<Rightarrow> (Inl e, s)
     | Inr parsed \<Rightarrow>
         if list_ex (\<lambda>ext. endswith (lower (path parsed)) ext) image_extensions
         then (Inr (Some True), s)
         else
           (let s1 = s\<lparr>requests := requests s @ [HEAD absolute_url]\<rparr> in
            case session_head env (length (requests s)) absolute_url of
              None \<Rightarrow> (Inr None, s1)
            | Some (status, ctype) \<Rightarrow>
                if status = 200
                then (Inr (Some (list_ex (\<lambda>t. contains (lower (case ctype of None \<Rightarrow> [] | Some c \<Rightarrow> c)) t)
                                   image_types)), s1)
                else (Inr (Some False), s1)))"

fun images_loop :: "env \<Rightarrow> string \<Rightarrow> string list \<Rightarrow> string list \<Rightarrow> state \<Rightarrow> (error + string list) \<times> state" where
  "images_loop env url [] images s = (Inr images, s)"
| "images_loop env url (i # imgs) images s =
     (let src = strip is_space i in
      if src = [] then images_loop env url imgs images s
      else
        (case urljoin (check_bracketed_host env) url src of
           Inl e \<Rightarrow> (Inl e, s)
         | Inr absolute_url \<Rightarrow>
             (case is_image env absolute_url s of
                (Inl e, s1) \<Rightarrow> (Inl e, s1)
              | (Inr None, s1) \<Rightarrow> images_loop env url imgs images s1
              | (Inr (Some b), s1) \<Rightarrow>
                  images_loop env url imgs (if b then set_add absolute_url images else images) s1)))"

definition get_all_images :: "env \<Rightarrow> string \<Rightarrow> state \<Rightarrow> (error + string list) \<times> state" where
  "get_all_images env url s =
    (case get_page env url s of
       (None, s1) \<Rightarrow> (Inr [], s1)
     | (Some r, s1) \<Rightarrow>
         (case images_loop env url (srcs r) [] s1 of
            (Inl e, s2) \<Rightarrow> (Inl e, s2)
          | (Inr images, s2) \<Rightarrow> (Inr (list_of_set env images), s2)))"

section \<open>The spider: downloading\<close>

text \<open>The path tried for a given \<open>counter\<close> in the duplicate loop of \<open>download_image\<close>.\<close>

definition suffixed_path :: "string \<Rightarrow> string \<Rightarrow> nat \<Rightarrow> string" where
  "suffixed_path dir filename counter =
    path_join dir (fst (splitext filename) @ ''_'' @ str_nat counter @ snd (splitext filename))"

text \<open>
  The \<open>while os.path.exists(filepath)\<close> loop, over the paths that exist.  It ends because
  the paths it tries are pairwise different (decimal numerals are) and finitely many paths
  exist.
\<close>

function unique_filepath :: "string list \<Rightarrow> string \<Rightarrow> string \<Rightarrow> string \<Rightarrow> nat \<Rightarrow> string" where
  "unique_filepath existing dir filename filepath counter =
     (if filepath \<in> set existing
      then unique_filepath existing dir filename (suffixed_path dir filename counter) (counter + 1)
      else filepath)"
  by pat_completeness auto
termination
proof -
  have digit_inj: "d = d'" if "d < 10" and "d' < 10" and "digit_char d = digit_char d'" for d d'
  proof -
    have "48 + d = (of_char (digit_char d) :: nat)"
      using that(1) by (simp add: digit_char_def)
    also have "\<dots> = of_char (digit_char d')"
      by (simp only: that(3))
    also have "\<dots> = 48 + d'"
      using that(2) by (simp add: digit_char_def)
    finally show ?thesis by simp
  qed
  have not_Nil: "str_nat n \<noteq> []" "[] \<noteq> str_nat n" for n
    by (subst str_nat.simps, simp)+
  have numeral_inj: "str_nat m = str_nat n \<Longrightarrow> m = n" for m n
  proof (induction m arbitrary: n rule: str_nat.induct)
    case (1 m)
    show ?case
    proof (cases "m < 10")
      case small_m: True
      show ?thesis
      proof (cases "n < 10")
        case True
        with small_m "1.prems" show ?thesis
          by (simp add: str_nat.simps [of m] str_nat.simps [of n] digit_inj)
      next
        case False
        with small_m "1.prems" show ?thesis
          by (simp add: str_nat.simps [of m] str_nat.simps [of n] not_Nil)
      qed
    next
      case big_m: False
      show ?thesis
      proof (cases "n < 10")
        case True
        with big_m "1.prems" show ?thesis
          by (simp add: str_nat.simps [of m] str_nat.simps [of n] not_Nil)
      next
        case False
        with big_m "1.prems" have eq: "str_nat (m div 10) = str_nat (n div 10)"
          and dg: "digit_char (m mod 10) = digit_char (n mod 10)"
          by (simp_all add: str_nat.simps [of m] str_nat.simps [of n])
        from "1.IH" [OF big_m eq] have "m div 10 = n div 10" .
        moreover from dg have "m mod 10 = n mod 10"
          by (rule digit_inj [rotated 2]) simp_all
        ultimately show ?thesis
          by (metis div_mult_mod_eq)
      qed
    qed
  qed
  have path_inj: "j = k" if eq: "suffixed_path dir filename j = suffixed_path dir filename k"
    for dir filename j k
  proof -
    define stem where "stem = fst (splitext filename) @ ''_''"
    define ext where "ext = snd (splitext filename)"
    have ne: "stem \<noteq> []" by (simp add: stem_def)
    have sw: "startswith (stem @ str_nat i @ ext) ''/'' = (hd stem = CHR ''/'')" for i
      using ne by (cases stem) (simp_all add: startswith_def)
    have form: "suffixed_path dir filename i = path_join dir (stem @ str_nat i @ ext)" for i
      by (simp add: suffixed_path_def stem_def ext_def)
    from eq have "stem @ str_nat j @ ext = stem @ str_nat k @ ext"
      unfolding form path_join_def sw by (simp split: if_splits)
    then show ?thesis by (simp add: numeral_inj)
  qed
  have finite_tried: "finite {k. suffixed_path dir filename k \<in> set existing}"
    for dir filename and existing :: "string list"
  proof -
    have "inj (suffixed_path dir filename)"
      by (rule injI) (rule path_inj)
    then have "finite (suffixed_path dir filename -` set existing)"
      by (rule finite_vimageI [rotated]) simp
    then show ?thesis by (simp add: vimage_def)
  qed
  show ?thesis
  proof (relation "measure (\<lambda>(existing, dir, filename, filepath, counter).
           2 * card {k. counter \<le> k \<and> suffixed_path dir filename k \<in> set existing}
           + (if filepath \<in> set existing then 1 else 0))", goal_cases)
    case 1
    show ?case by simp
  next
    case (2 existing dir filename filepath counter)
    let ?A = "{k. counter \<le> k \<and> suffixed_path dir filename k \<in> set existing}"
    let ?B = "{k. counter + 1 \<le> k \<and> suffixed_path dir filename k \<in> set existing}"
    have fin: "finite ?A"
      by (rule finite_subset [OF _ finite_tried [of dir filename existing]]) auto
    show ?case
    proof (cases "suffixed_path dir filename counter \<in> set existing")
      case True
      then have "counter \<in> ?A" and "counter \<notin> ?B" and "?B \<subseteq> ?A" by auto
      then have "?B \<subset> ?A" by blast
      then have "card ?B < card ?A" using fin by (rule psubset_card_mono [rotated])
      with 2 True show ?thesis by simp
    next
      case False
      then have "?B = ?A" by (auto simp: Suc_le_eq order_less_le)
      with 2 False show ?thesis by simp
    qed
  qed
qed

declare unique_filepath.simps [simp del]

text \<open>
  \<open>download_image\<close>.  The module does not import \<open>time\<close>, so evaluating
  \<open>time.time()\<close> for a blank file name raises \<open>NameError\<close>; like every exception in
  the body it is caught and reported.  \<open>open\<close> raises \<open>OSError\<close> where \<open>open_ok\<close>
  is false.
\<close>

definition download_image :: "env \<Rightarrow> string \<Rightarrow> state \<Rightarrow> state" where
  "download_image env img_url s =
    (case get_page env img_url s of
       (None, s1) \<Rightarrow> s1
     | (Some r, s1) \<Rightarrow>
         (case urlparse (check_bracketed_host env) img_url [] of
            Inl e \<Rightarrow> s1\<lparr>stdout := stdout s1 @ [FailedToDownload img_url e]\<rparr>
          | Inr parsed \<Rightarrow>
              (let filename = basename (path parsed) in
               if strip is_space filename = []
               then s1\<lparr>stdout := stdout s1 @ [FailedToDownload img_url NameError]\<rparr>
               else
                 (let ctype = (case content_type r of None \<Rightarrow> [] | Some c \<Rightarrow> c);
                      filename1 =
                        (if snd (splitext filename) = []
                         then (case guess_extension env ctype of
                                 None \<Rightarrow> filename
                               | Some ext \<Rightarrow> if ext = [] then filename else filename @ ext)
                         else filename);
                      filepath = unique_filepath (map fst (files s1)) (download_path s1) filename1
                                   (path_join (download_path s1) filename1) 1
                  in if open_ok env filepath
                     then s1\<lparr>files := files s1 @ [(filepath, content r)],
                             stdout := stdout s1 @ [Downloaded img_url (basename filepath)]\<rparr>
                     else s1\<lparr>stdout := stdout s1 @ [FailedToDownload img_url OSError]\<rparr>))))"

fun download_images :: "env \<Rightarrow> string list \<Rightarrow> state \<Rightarrow> state" where
  "download_images env [] s = s"
| "download_images env (img_url # img_urls) s = download_images env img_urls (download_image env img_url s)"

section \<open>The spider: crawl\<close>

text \<open>
  \<open>crawl\<close> returns the exception that ended it, if any, with the state reached.
  \<open>crawl_links\<close> is its loop over the links, called at the depth of the linked pages.
\<close>

function crawl :: "env \<Rightarrow> string \<Rightarrow> int \<Rightarrow> int \<Rightarrow> state \<Rightarrow> error option \<times> state"
  and crawl_links :: "env \<Rightarrow> string list \<Rightarrow> int \<Rightarrow> int \<Rightarrow> state \<Rightarrow> error option \<times> state" where
  "crawl env url depth max_depth s =
    (case normalize_url (check_bracketed_host env) url of
       Inl e \<Rightarrow> (Some e, s)
     | Inr normalized_url \<Rightarrow>
         if depth > max_depth \<or> normalized_url \<in> visited s then (None, s)
         else
           (let s1 = s\<lparr>visited := insert normalized_url (visited s),
                       stdout := stdout s @ [Crawling normalized_url depth]\<rparr> in
            case get_all_images env normalized_url s1 of
              (Inl e, s2) \<Rightarrow> (Some e, s2)
            | (Inr images, s2) \<Rightarrow>
                (let s3 = download_images env images s2 in
                 if depth < max_depth then
                   (case get_all_links env normalized_url normalized_url s3 of
                      (Inl e, s4) \<Rightarrow> (Some e, s4)
                    | (Inr links, s4) \<Rightarrow> crawl_links env links (depth + 1) max_depth s4)
                 else (None, s3))))"
| "crawl_links env [] depth max_depth s = (None, s)"
| "crawl_links env (link # links) depth max_depth s =
    (if is_valid_url (check_bracketed_host env) link then
       (case crawl env link depth max_depth s of
          (Some e, s1) \<Rightarrow> (Some e, s1)
        | (None, s1) \<Rightarrow> crawl_links env links depth max_depth s1)
     else crawl_links env links depth max_depth s)"
  by pat_completeness auto

termination
  by (relation "measures
      [\<lambda>x. case x of
          Inl (env, url, depth, max_depth, s) \<Rightarrow> nat (max_depth + 1 - depth)
        | Inr (env, links, depth, max_depth, s) \<Rightarrow> nat (max_depth + 1 - depth),
       \<lambda>x. case x of
          Inl (env, url, depth, max_depth, s) \<Rightarrow> 0
        | Inr (env, links, depth, max_depth, s) \<Rightarrow> Suc (length links)]") auto

declare crawl.simps [simp del]

text \<open>A fresh \<open>Spider\<close> in a world with the given files.\<close>

definition init_state :: "(string \<times> string) list \<Rightarrow> state" where
  "init_state fs = \<lparr>visited = {}, download_path = ''./data/'', stdout = [], requests = [], files = fs\<rparr>"

section \<open>Example worlds\<close>

text \<open>
  A static site: every request for a URL of the table is answered with its page, any other
  request fails.  No HEAD request is answered, no MIME type has an extension, sets are
  listed in insertion order and every file can be opened.
\<close>

definition html_page :: "string list \<Rightarrow> string list \<Rightarrow> response" where
  "html_page anchors imgs =
    \<lparr>status_code = 200, content_type = Some ''text/html'', hrefs = anchors, srcs = imgs,
     content = ''<html>''\<rparr>"

definition site_env :: "(string \<times> response) list \<Rightarrow> env" where
  "site_env pages =
    \<lparr>check_bracketed_host = (\<lambda>h. True),
     session_get = (\<lambda>n url. map_of pages url),
     session_head = (\<lambda>n url. None),
     guess_extension = (\<lambda>t. None),
     list_of_set = (\<lambda>xs. xs),
     open_ok = (\<lambda>p. True)\<rparr>"

text \<open>Two pages that link to each other.\<close>

definition cycle_env :: env where
  "cycle_env = site_env
     [(''http://a.com/A'', html_page [''/B''] []),
      (''http://a.com/B'', html_page [''/A''] [])]"

text \<open>A chain of four pages.\<close>

definition chain_env :: env where
  "chain_env = site_env
     [(''http://a.com/A'', html_page [''/B''] []),
      (''http://a.com/B'', html_page [''/C''] []),
      (''http://a.com/C'', html_page [''/D''] []),
      (''http://a.com/D'', html_page [] [])]"

text \<open>A site whose first request fails and whose later requests are answered.\<close>

definition flaky_env :: env where
  "flaky_env = (site_env [])\<lparr>session_get := (\<lambda>k url.
     if k = 0 then None
     else map_of [(''http://a.com/A'', html_page [''/B''] []),
                  (''http://a.com/B'', html_page [] [])] url)\<rparr>"


text \<open>Two URLs with the same base name, both answered with a JPEG.\<close>

definition jpeg_response :: response where
  "jpeg_response =
    \<lparr>status_code = 200, content_type = Some ''image/jpeg'', hrefs = [], srcs = [], content = ''JFIF''\<rparr>"


text \<open>A page whose image has a URL that ends with a slash, served as a JPEG.\<close>

definition slash_env :: env where
  "slash_env = site_env [(''http://a.com/img/'', jpeg_response)]"

text \<open>A page with a fragment link, a script link and an empty link.\<close>

definition anchors_env :: env where
  "anchors_env = site_env
     [(''http://a.com/x'', html_page [''#top'', ''javascript:void(0)'', ''''] [])]"

section \<open>Notions used in the statements and proofs\<close>

text \<open>What \<open>split_rest\<close> accepts of the brackets of a network location.\<close>

definition netloc_ok :: "(string \<Rightarrow> bool) \<Rightarrow> string \<Rightarrow> bool" where
  "netloc_ok chk nl =
     ((CHR ''['' \<in> set nl) = (CHR '']'' \<in> set nl) \<and>
      (CHR ''['' \<notin> set nl \<or> chk (str_before CHR '']'' (str_after CHR ''['' nl))))"

text \<open>The URLs announced by \<open>Crawling\<close> lines, with their depths, in order.\<close>

fun pages_of :: "message list \<Rightarrow> (string \<times> int) list" where
  "pages_of [] = []"
| "pages_of (Crawling url depth # ms) = (url, depth) # pages_of ms"
| "pages_of (m # ms) = pages_of ms"

text \<open>A step that visits nothing: it may print and send requests, no more.\<close>

definition quiet :: "state \<Rightarrow> state \<Rightarrow> bool" where
  "quiet s s' = (visited s' = visited s \<and> (\<exists>ms. stdout s' = stdout s @ ms \<and> pages_of ms = []))"

text \<open>
  A step that processes pages: each page it announces is new in \<open>visited\<close>, is announced
  once, and lies at a depth from \<open>depth\<close> to \<open>max_depth\<close>; nothing leaves \<open>visited\<close>.
\<close>

definition crawl_rel :: "int \<Rightarrow> int \<Rightarrow> state \<Rightarrow> state \<Rightarrow> bool" where
  "crawl_rel depth max_depth s s' =
    (\<exists>ms. stdout s' = stdout s @ ms \<and> distinct (map fst (pages_of ms)) \<and>
          fst ` set (pages_of ms) = visited s' - visited s \<and> visited s \<subseteq> visited s' \<and>
          list_all (\<lambda>(u, k). depth \<le> k \<and> k \<le> max_depth) (pages_of ms))"

text \<open>A fetch that \<open>get_page\<close> reports as failed: the request raises, or the status is an error.\<close>

definition fetch_fails :: "env \<Rightarrow> nat \<Rightarrow> string \<Rightarrow> bool" where
  "fetch_fails env k url =
    (case session_get env k url of
       None \<Rightarrow> True
     | Some r \<Rightarrow> 400 \<le> status_code r \<and> status_code r < 600)"




section \<open>Properties of the string functions\<close>

lemma tw_stop: "\<not> P x \<Longrightarrow> takeWhile P (xs @ x # ys) = takeWhile P xs"
  by (induction xs) auto

lemma dw_stop: "\<not> P x \<Longrightarrow> dropWhile P (xs @ x # ys) = dropWhile P xs @ x # ys"
  by (induction xs) auto

lemma upto_after_last: "upto_last c s @ after_last c s = s"
  by (simp add: upto_last_def after_last_def flip: rev_append)

lemma rstrip_prefix: "\<exists>r. s = rstrip P s @ r"
proof -
  have "rev s = takeWhile P (rev s) @ dropWhile P (rev s)" by simp
  then have "s = rev (dropWhile P (rev s)) @ rev (takeWhile P (rev s))"
    by (metis rev_append rev_rev_ident)
  then show ?thesis unfolding rstrip_def by blast
qed

lemma rstrip_idem: "rstrip P (rstrip P s) = rstrip P s"
  by (simp add: rstrip_def dropWhile_idem)

lemma str_before_notin: "c \<notin> set s \<Longrightarrow> str_before c s = s"
  unfolding str_before_def by (rule takeWhile_eq_all_conv [THEN iffD2]) auto

lemma str_before_if: "(if c \<in> set s then str_before c s else s) = str_before c s"
  by (simp add: str_before_notin)

lemma notin_str_before: "c \<notin> set (str_before c s)"
  by (auto simp: str_before_def dest: set_takeWhileD)

lemma set_str_before: "set (str_before c s) \<subseteq> set s"
  by (auto simp: str_before_def dest: set_takeWhileD)

section \<open>Properties of urlsplit and urlparse\<close>

lemma split_rest_Inr:
  assumes "split_rest chk sch url = Inr (s, nl, pth, q, f)"
  shows "s = sch" and "\<forall>c\<in>set nl. \<not> netloc_delim c" and "set nl \<subseteq> set url"
    and "set pth \<subseteq> set url" and "CHR ''?'' \<notin> set pth" and "CHR ''#'' \<notin> set pth"
    and "netloc_ok chk nl" and "nl \<noteq> [] \<Longrightarrow> pth = [] \<or> hd pth = CHR ''/''"
proof -
  define hn where "hn = (take 2 url = ''//'')"
  define u1 where "u1 = (if hn then snd (splitnetloc url) else url)"
  define u2 where "u2 = (if CHR ''#'' \<in> set u1 then str_before CHR ''#'' u1 else u1)"
  have u2_alt: "u2 = str_before CHR ''#'' u1"
    by (simp add: u2_def str_before_if)
  from assms have s: "s = sch" and nl: "nl = (if hn then fst (splitnetloc url) else [])"
    and pth: "pth = (if CHR ''?'' \<in> set u2 then str_before CHR ''?'' u2 else u2)"
    and ok: "\<not> (hn \<and> ((CHR ''['' \<in> set nl \<and> CHR '']'' \<notin> set nl) \<or> (CHR '']'' \<in> set nl \<and> CHR ''['' \<notin> set nl)))"
      "\<not> (hn \<and> CHR ''['' \<in> set nl \<and> CHR '']'' \<in> set nl \<and> \<not> chk (str_before CHR '']'' (str_after CHR ''['' nl)))"
    by (auto simp: split_rest_def Let_def hn_def u1_def u2_def split: if_splits)
  have pth_alt: "pth = str_before CHR ''?'' u2"
    by (simp add: pth str_before_if)
  show "s = sch" by (rule s)
  show "\<forall>c\<in>set nl. \<not> netloc_delim c"
    by (auto simp: nl splitnetloc_def dest: set_takeWhileD)
  show "set nl \<subseteq> set url"
    by (auto simp: nl splitnetloc_def dest!: set_takeWhileD in_set_dropD)
  have u1_sub: "set u1 \<subseteq> set url"
    by (auto simp: u1_def splitnetloc_def dest!: set_dropWhileD in_set_dropD)
  have u2_sub: "set u2 \<subseteq> set u1"
    by (auto simp: u2_alt str_before_def dest: set_takeWhileD)
  have pth_sub: "set pth \<subseteq> set u2"
    by (auto simp: pth_alt str_before_def dest: set_takeWhileD)
  show "set pth \<subseteq> set url" using u1_sub u2_sub pth_sub by blast
  show "CHR ''?'' \<notin> set pth"
    by (auto simp: pth_alt str_before_def dest: set_takeWhileD)
  have "CHR ''#'' \<notin> set u2"
    by (auto simp: u2_alt str_before_def dest: set_takeWhileD)
  then show "CHR ''#'' \<notin> set pth" using pth_sub by blast
  show "netloc_ok chk nl"
  proof (cases hn)
    case True
    with ok show ?thesis by (auto simp: netloc_ok_def)
  next
    case False
    then show ?thesis by (simp add: nl netloc_ok_def)
  qed
  show "pth = [] \<or> hd pth = CHR ''/''" if "nl \<noteq> []"
  proof -
    from that have hn: hn by (simp add: nl split: if_splits)
    then have u1: "u1 = dropWhile (\<lambda>c. \<not> netloc_delim c) (drop 2 url)"
      by (simp add: u1_def splitnetloc_def)
    show ?thesis
    proof (cases u1)
      case Nil
      then show ?thesis by (simp add: pth_alt u2_alt str_before_def)
    next
      case (Cons a r)
      then have "netloc_delim a"
        using hd_dropWhile [of "\<lambda>c. \<not> netloc_delim c" "drop 2 url"] u1 by auto
      then show ?thesis
        by (auto simp: pth_alt u2_alt Cons str_before_def netloc_delim_def)
    qed
  qed
qed

lemma split_rest_rebuild:
  assumes nd: "\<forall>c\<in>set nl. \<not> netloc_delim c" and ok: "netloc_ok chk nl"
    and q: "CHR ''?'' \<notin> set pth" and h: "CHR ''#'' \<notin> set pth"
    and slash: "pth = [] \<or> hd pth = CHR ''/''"
  shows "split_rest chk sch (''//'' @ nl @ pth) = Inr (sch, nl, pth, [], [])"
proof -
  have tw: "takeWhile (\<lambda>c. \<not> netloc_delim c) (nl @ pth) = nl"
    and dw: "dropWhile (\<lambda>c. \<not> netloc_delim c) (nl @ pth) = pth"
    using nd slash by (cases pth; simp add: netloc_delim_def tw_stop dw_stop)+
  show ?thesis
    using ok q h by (auto simp: split_rest_def Let_def splitnetloc_def tw dw netloc_ok_def)
qed

lemma set_str_after: "set (str_after c s) \<subseteq> set s"
  by (auto simp: str_after_def dest!: in_set_dropD set_dropWhileD)

lemma set_split_scheme: "set (snd (split_scheme url d)) \<subseteq> set url"
  using set_str_after [of "CHR '':''" url] by (auto simp: split_scheme_def)

lemma urlsplit_Inr:
  assumes "urlsplit chk u d = Inr (s, nl, pth, q, f)"
  shows "\<forall>c\<in>set nl. \<not> netloc_delim c \<and> \<not> unsafe_url_byte c"
    and "\<forall>c\<in>set pth. \<not> unsafe_url_byte c \<and> c \<noteq> CHR ''?'' \<and> c \<noteq> CHR ''#''"
    and "netloc_ok chk nl" and "nl \<noteq> [] \<Longrightarrow> pth = [] \<or> hd pth = CHR ''/''"
proof -
  define url1 where "url1 = filter (\<lambda>c. \<not> unsafe_url_byte c) (lstrip c0_control_or_space u)"
  define d1 where "d1 = filter (\<lambda>c. \<not> unsafe_url_byte c) (strip c0_control_or_space d)"
  from assms have sr: "split_rest chk (fst (split_scheme url1 d1)) (snd (split_scheme url1 d1))
      = Inr (s, nl, pth, q, f)"
    by (simp add: urlsplit_def Let_def url1_def d1_def)
  have safe: "\<forall>c\<in>set (snd (split_scheme url1 d1)). \<not> unsafe_url_byte c"
    using set_split_scheme [of url1 d1] by (auto simp: url1_def)
  note props = split_rest_Inr [OF sr]
  show "\<forall>c\<in>set nl. \<not> netloc_delim c \<and> \<not> unsafe_url_byte c"
    using props(2,3) safe by blast
  show "\<forall>c\<in>set pth. \<not> unsafe_url_byte c \<and> c \<noteq> CHR ''?'' \<and> c \<noteq> CHR ''#''"
    using props(4,5,6) safe by blast
  show "netloc_ok chk nl" by (rule props(7))
  show "pth = [] \<or> hd pth = CHR ''/''" if "nl \<noteq> []"
    using props(8) that by blast
qed

lemma upto_last_hd: "c \<in> set s \<Longrightarrow> upto_last c s \<noteq> [] \<and> hd (upto_last c s) = hd s"
proof -
  assume c: "c \<in> set s"
  then have "dropWhile (\<lambda>x. x \<noteq> c) (rev s) \<noteq> []"
    by (simp add: dropWhile_eq_Nil_conv) 
  then have ne: "upto_last c s \<noteq> []" by (simp add: upto_last_def)
  have "s = upto_last c s @ after_last c s" by (simp add: upto_after_last)
  then have "hd s = hd (upto_last c s @ after_last c s)" by simp
  with ne show ?thesis by simp
qed

lemma splitparams_prefix: "\<exists>r. x = fst (splitparams x) @ r"
proof -
  have a: "\<exists>r. y = str_before c y @ r" for c and y :: string
    unfolding str_before_def by (metis takeWhile_dropWhile_id)
  have b: "\<exists>r. y = butlast y @ r" for y :: string
    by (metis append_butlast_last_id append_Nil2 butlast.simps(1))
  show ?thesis
  proof (cases "CHR ''/'' \<in> set x \<and> CHR '';'' \<in> set (after_last CHR ''/'' x)")
    case True
    obtain r where "after_last CHR ''/'' x = str_before CHR '';'' (after_last CHR ''/'' x) @ r"
      using a by blast
    then have "x = (upto_last CHR ''/'' x @ str_before CHR '';'' (after_last CHR ''/'' x)) @ r"
      using upto_after_last [of "CHR ''/''" x] by (metis append.assoc)
    with True show ?thesis by (auto simp: splitparams_def)
  next
    case False
    then show ?thesis using a [of x "CHR '';''"] b [of x]
      by (auto simp: splitparams_def)
  qed
qed

lemma splitparams_hd:
  assumes "x \<noteq> []" and "hd x = CHR ''/''"
  shows "fst (splitparams x) \<noteq> [] \<and> hd (fst (splitparams x)) = CHR ''/''"
proof -
  from assms have sl: "CHR ''/'' \<in> set x" by (cases x) auto
  from upto_last_hd [OF sl] assms sl show ?thesis
    by (auto simp: splitparams_def)
qed

lemma splitparams_id:
  "CHR ''/'' \<in> set x \<Longrightarrow> CHR '';'' \<notin> set (after_last CHR ''/'' x) \<Longrightarrow> splitparams x = (x, [])"
  by (simp add: splitparams_def)

lemma urlparse_Inr:
  assumes "urlparse chk u d = Inr p"
  shows "\<forall>c\<in>set (netloc p). \<not> netloc_delim c \<and> \<not> unsafe_url_byte c"
    and "\<forall>c\<in>set (path p). \<not> unsafe_url_byte c \<and> c \<noteq> CHR ''?'' \<and> c \<noteq> CHR ''#''"
    and "netloc_ok chk (netloc p)"
    and "netloc p \<noteq> [] \<Longrightarrow> path p = [] \<or> hd (path p) = CHR ''/''"
proof -
  from assms obtain s nl pth q f where sp: "urlsplit chk u d = Inr (s, nl, pth, q, f)"
    and nl: "netloc p = nl" and pth: "path p = pth \<or> path p = fst (splitparams pth)"
    by (auto simp: urlparse_def split: sum.splits if_splits)
  note props = urlsplit_Inr [OF sp]
  obtain r where r: "pth = fst (splitparams pth) @ r" using splitparams_prefix by blast
  then have sub: "set (fst (splitparams pth)) \<subseteq> set pth" by (metis set_append Un_upper1)
  show "\<forall>c\<in>set (netloc p). \<not> netloc_delim c \<and> \<not> unsafe_url_byte c"
    using props(1) nl by simp
  have sub2: "set (path p) \<subseteq> set pth"
  proof (rule disjE [OF pth])
    assume "path p = pth"
    then show ?thesis by simp
  next
    assume "path p = fst (splitparams pth)"
    then show ?thesis using sub by simp
  qed
  show "\<forall>c\<in>set (path p). \<not> unsafe_url_byte c \<and> c \<noteq> CHR ''?'' \<and> c \<noteq> CHR ''#''"
    using props(2) sub2 by blast
  show "netloc_ok chk (netloc p)" using props(3) nl by simp
  show "path p = [] \<or> hd (path p) = CHR ''/''" if "netloc p \<noteq> []"
  proof -
    from that nl props(4) have "pth = [] \<or> hd pth = CHR ''/''" by simp
    then show ?thesis
    proof
      assume "pth = []"
      with sub2 show ?thesis by simp
    next
      assume h: "hd pth = CHR ''/''"
      show ?thesis
      proof (cases "pth = []")
        case True
        with sub2 show ?thesis by simp
      next
        case False
        show ?thesis
        proof (rule disjE [OF pth])
          assume "path p = pth"
          with h show ?thesis by simp
        next
          assume "path p = fst (splitparams pth)"
          with splitparams_hd [OF False h] show ?thesis by simp
        qed
      qed
    qed
  qed
qed

lemma rstrip_hd: "rstrip P s \<noteq> [] \<Longrightarrow> hd (rstrip P s) = hd s"
  using rstrip_prefix [of s P] by (metis hd_append2)

lemma set_rstrip: "set (rstrip P s) \<subseteq> set s"
  using rstrip_prefix [of s P] by (metis set_append Un_upper1)

lemma urlsplit_rebuilt:
  assumes sch: "sch = ''http'' \<or> sch = ''https''"
    and nl: "\<forall>c\<in>set nl. \<not> netloc_delim c \<and> \<not> unsafe_url_byte c" and ok: "netloc_ok chk nl"
    and pth: "\<forall>c\<in>set pth. \<not> unsafe_url_byte c \<and> c \<noteq> CHR ''?'' \<and> c \<noteq> CHR ''#''"
    and slash: "pth = [] \<or> hd pth = CHR ''/''"
  shows "urlsplit chk (sch @ ''://'' @ nl @ pth) [] = Inr (sch, nl, pth, [], [])"
proof -
  have clean: "filter (\<lambda>c. \<not> unsafe_url_byte c) (nl @ pth) = nl @ pth"
    using nl pth by (auto simp: filter_id_conv)
  have rest: "split_rest chk sch (''//'' @ nl @ pth) = Inr (sch, nl, pth, [], [])"
    using nl ok pth slash by (intro split_rest_rebuild) auto
  from sch show ?thesis
  proof
    assume s: "sch = ''http''"
    have "split_scheme (''http://'' @ nl @ pth) [] = (''http'', ''//'' @ nl @ pth)"
      by (simp add: split_scheme_def str_before_def str_after_def ascii_letters_def
          scheme_chars_def lower_def lower_char_def)
    then show ?thesis using rest clean
      by (simp add: urlsplit_def s lstrip_def strip_def rstrip_def c0_control_or_space_def
          unsafe_url_byte_def)
  next
    assume s: "sch = ''https''"
    have "split_scheme (''https://'' @ nl @ pth) [] = (''https'', ''//'' @ nl @ pth)"
      by (simp add: split_scheme_def str_before_def str_after_def ascii_letters_def
          scheme_chars_def lower_def lower_char_def)
    then show ?thesis using rest clean
      by (simp add: urlsplit_def s lstrip_def strip_def rstrip_def c0_control_or_space_def
          unsafe_url_byte_def)
  qed
qed

lemma is_valid_url_iff:
  "is_valid_url chk u =
     (\<exists>p. urlparse chk u [] = Inr p \<and> (scheme p = ''http'' \<or> scheme p = ''https'') \<and> netloc p \<noteq> [])"
  by (auto simp: is_valid_url_def split: sum.splits)

lemma length_rstrip: "length (rstrip P s) \<le> length s"
  by (simp add: rstrip_def length_dropWhile_le [THEN order_trans])

lemma length_str_before_less: "c \<in> set s \<Longrightarrow> length (str_before c s) < length s"
proof -
  assume "c \<in> set s"
  then have "dropWhile (\<lambda>x. x \<noteq> c) s \<noteq> []" by (simp add: dropWhile_eq_Nil_conv)
  moreover have "length s = length (str_before c s) + length (dropWhile (\<lambda>x. x \<noteq> c) s)"
    unfolding str_before_def by (metis length_append takeWhile_dropWhile_id)
  ultimately show ?thesis by (cases "dropWhile (\<lambda>x. x \<noteq> c) s") simp_all
qed

lemma set_after_last: "set (after_last c s) \<subseteq> set s"
  by (auto simp: after_last_def dest: set_takeWhileD)

lemma normalize_url_rebuilt:
  assumes sch: "sch = ''http'' \<or> sch = ''https''"
    and nl: "\<forall>c\<in>set nl. \<not> netloc_delim c \<and> \<not> unsafe_url_byte c" and ok: "netloc_ok chk nl"
    and pth: "\<forall>c\<in>set pth. \<not> unsafe_url_byte c \<and> c \<noteq> CHR ''?'' \<and> c \<noteq> CHR ''#''"
    and slash: "pth = [] \<or> hd pth = CHR ''/''"
  shows "normalize_url chk (sch @ ''://'' @ nl @ pth) =
     Inr (sch @ ''://'' @ nl @
       rstrip (\<lambda>c. c = CHR ''/'')
         (if CHR '';'' \<in> set (after_last CHR ''/'' pth)
          then upto_last CHR ''/'' pth @ str_before CHR '';'' (after_last CHR ''/'' pth)
          else pth))"
proof -
  have sp: "urlsplit chk (sch @ ''://'' @ nl @ pth) [] = Inr (sch, nl, pth, [], [])"
    using assms by (rule urlsplit_rebuilt)
  have up: "sch \<in> set uses_params" using sch by (auto simp: uses_params_def)
  show ?thesis
  proof (cases "CHR '';'' \<in> set pth")
    case False
    then have "CHR '';'' \<notin> set (after_last CHR ''/'' pth)"
      using set_after_last [of "CHR ''/''" pth] by blast
    with False sp show ?thesis by (simp add: normalize_url_def urlparse_def)
  next
    case True
    then have "pth \<noteq> []" by auto
    with slash have sl: "CHR ''/'' \<in> set pth" by (cases pth) auto
    from True up sp sl show ?thesis
      by (simp add: normalize_url_def urlparse_def splitparams_def)
  qed
qed

section \<open>Normalisation\<close>

text \<open>
  C8 (amended).  \<open>normalize_url\<close> is idempotent on a valid URL exactly when the last
  segment of its path, once the trailing slashes are stripped, contains no semicolon: for
  every valid URL \<open>u\<close>, \<open>normalize_url u\<close> returns some \<open>n\<close>, and
  \<open>normalize_url n = n\<close> holds if and only if that segment has no \<open>;\<close>.  With a
  semicolon there, the second pass reads the rest of the segment as parameters and drops it.
\<close>

theorem normalize_url_idempotent:
  assumes valid: "is_valid_url chk u" and parsed: "urlparse chk u [] = Inr p"
  shows "\<exists>n. normalize_url chk u = Inr n \<and>
           (normalize_url chk n = Inr n) =
           (CHR '';'' \<notin> set (after_last CHR ''/'' (rstrip (\<lambda>c. c = CHR ''/'') (path p))))"
proof -
  define rp where "rp = rstrip (\<lambda>c. c = CHR ''/'') (path p)"
  define n where "n = scheme p @ ''://'' @ netloc p @ rp"
  from valid parsed have sch: "scheme p = ''http'' \<or> scheme p = ''https''" and ne: "netloc p \<noteq> []"
    by (auto simp: is_valid_url_iff)
  have n: "normalize_url chk u = Inr n"
    by (simp add: normalize_url_def parsed n_def rp_def)
  note props = urlparse_Inr [OF parsed]
  have rp_chars: "\<forall>c\<in>set rp. \<not> unsafe_url_byte c \<and> c \<noteq> CHR ''?'' \<and> c \<noteq> CHR ''#''"
    using props(2) set_rstrip [of "\<lambda>c. c = CHR ''/''" "path p"] unfolding rp_def by blast
  have rp_slash: "rp = [] \<or> hd rp = CHR ''/''"
  proof (cases "rp = []")
    case False
    then have "path p \<noteq> []" by (auto simp: rp_def rstrip_def)
    with props(4) [OF ne] have "hd (path p) = CHR ''/''" by simp
    with False show ?thesis using rstrip_hd [of "\<lambda>c. c = CHR ''/''" "path p"] by (simp add: rp_def)
  qed simp
  have again: "normalize_url chk n =
     Inr (scheme p @ ''://'' @ netloc p @
       rstrip (\<lambda>c. c = CHR ''/'')
         (if CHR '';'' \<in> set (after_last CHR ''/'' rp)
          then upto_last CHR ''/'' rp @ str_before CHR '';'' (after_last CHR ''/'' rp)
          else rp))"
    unfolding n_def using sch props(1) props(3) rp_chars rp_slash by (rule normalize_url_rebuilt)
  have "(normalize_url chk n = Inr n) = (CHR '';'' \<notin> set (after_last CHR ''/'' rp))"
  proof (cases "CHR '';'' \<in> set (after_last CHR ''/'' rp)")
    case False
    have "rstrip (\<lambda>c. c = CHR ''/'') rp = rp" by (simp add: rp_def rstrip_idem)
    with False have "normalize_url chk n = Inr (scheme p @ ''://'' @ netloc p @ rp)"
      by (simp add: again)
    with False show ?thesis by (simp add: n_def)
  next
    case True
    let ?cut = "upto_last CHR ''/'' rp @ str_before CHR '';'' (after_last CHR ''/'' rp)"
    have "length ?cut < length (upto_last CHR ''/'' rp @ after_last CHR ''/'' rp)"
      using length_str_before_less [OF True] by simp
    then have "length ?cut < length rp" by (simp add: upto_after_last)
    then have "length (rstrip (\<lambda>c. c = CHR ''/'') ?cut) < length rp"
      using length_rstrip [of "\<lambda>c. c = CHR ''/''" ?cut] by simp
    then have "rstrip (\<lambda>c. c = CHR ''/'') ?cut \<noteq> rp" by auto
    moreover from True have "normalize_url chk n =
        Inr (scheme p @ ''://'' @ netloc p @ rstrip (\<lambda>c. c = CHR ''/'') ?cut)"
      by (simp add: again)
    ultimately have "normalize_url chk n \<noteq> Inr n" by (simp add: n_def)
    with True show ?thesis by simp
  qed
  with n show ?thesis unfolding rp_def by blast
qed

text \<open>The theorem at \<open>http://a.com/x/\<close>: valid, no semicolon, normalised to a fixed point.\<close>

theorem normalize_url_idempotent_witness:
  "is_valid_url (\<lambda>h. True) ''http://a.com/x/'' \<and>
   normalize_url (\<lambda>h. True) ''http://a.com/x/'' = Inr ''http://a.com/x'' \<and>
   normalize_url (\<lambda>h. True) ''http://a.com/x'' = Inr ''http://a.com/x''"
proof -
  have v: "is_valid_url (\<lambda>h. True) ''http://a.com/x/''" by code_simp
  have p: "urlparse (\<lambda>h. True) ''http://a.com/x/'' [] =
      Inr \<lparr>scheme = ''http'', netloc = ''a.com'', path = ''/x/'', params = [], query = [], fragment = []\<rparr>"
    by code_simp
  have n: "normalize_url (\<lambda>h. True) ''http://a.com/x/'' = Inr ''http://a.com/x''" by code_simp
  have c: "CHR '';'' \<notin> set (after_last CHR ''/'' (rstrip (\<lambda>c. c = CHR ''/'') ''/x/''))" by code_simp
  from normalize_url_idempotent [OF v p] n c v show ?thesis by simp
qed

text \<open>A valid URL on which \<open>normalize_url\<close> is not idempotent.\<close>

theorem normalize_url_not_idempotent:
  "is_valid_url (\<lambda>h. True) ''http://a.com/x;p/'' \<and>
   normalize_url (\<lambda>h. True) ''http://a.com/x;p/'' = Inr ''http://a.com/x;p'' \<and>
   normalize_url (\<lambda>h. True) ''http://a.com/x;p'' = Inr ''http://a.com/x''"
  by code_simp

section \<open>The pages a run has processed\<close>

lemma pages_of_append: "pages_of (xs @ ys) = pages_of xs @ pages_of ys"
  by (induction xs rule: pages_of.induct) auto

lemma quiet_refl: "quiet s s"
  by (simp add: quiet_def)

lemma quiet_trans: "quiet s s' \<Longrightarrow> quiet s' s'' \<Longrightarrow> quiet s s''"
  by (auto simp: quiet_def pages_of_append)

lemma quiet_crawl_rel: "quiet s s' \<Longrightarrow> crawl_rel depth max_depth s s'"
  by (auto simp: quiet_def crawl_rel_def)

lemma crawl_rel_refl: "crawl_rel depth max_depth s s"
  by (simp add: crawl_rel_def)

lemma crawl_rel_trans:
  assumes "crawl_rel depth max_depth s s'" and "crawl_rel depth max_depth s' s''"
  shows "crawl_rel depth max_depth s s''"
proof -
  from assms(1) obtain ms where ms: "stdout s' = stdout s @ ms" "distinct (map fst (pages_of ms))"
    "fst ` set (pages_of ms) = visited s' - visited s" "visited s \<subseteq> visited s'"
    "list_all (\<lambda>(u, k). depth \<le> k \<and> k \<le> max_depth) (pages_of ms)"
    unfolding crawl_rel_def by blast
  from assms(2) obtain ns where ns: "stdout s'' = stdout s' @ ns" "distinct (map fst (pages_of ns))"
    "fst ` set (pages_of ns) = visited s'' - visited s'" "visited s' \<subseteq> visited s''"
    "list_all (\<lambda>(u, k). depth \<le> k \<and> k \<le> max_depth) (pages_of ns)"
    unfolding crawl_rel_def by blast
  have "stdout s'' = stdout s @ (ms @ ns)" using ms(1) ns(1) by simp
  moreover have "distinct (map fst (pages_of (ms @ ns)))"
    using ms(2,3) ns(2,3) by (auto simp: pages_of_append)
  moreover have "fst ` set (pages_of (ms @ ns)) = visited s'' - visited s"
    using ms(3,4) ns(3,4) by (auto simp: pages_of_append image_Un)
  moreover have "visited s \<subseteq> visited s''" using ms(4) ns(4) by blast
  moreover have "list_all (\<lambda>(u, k). depth \<le> k \<and> k \<le> max_depth) (pages_of (ms @ ns))"
    using ms(5) ns(5) by (simp add: pages_of_append)
  ultimately show ?thesis unfolding crawl_rel_def by blast
qed

lemma crawl_rel_deeper: "crawl_rel (depth + 1) max_depth s s' \<Longrightarrow> crawl_rel depth max_depth s s'"
  unfolding crawl_rel_def list_all_iff by fastforce

lemma crawl_rel_visit:
  assumes "n \<notin> visited s" and "depth \<le> max_depth"
  shows "crawl_rel depth max_depth s
           (s\<lparr>visited := insert n (visited s), stdout := stdout s @ [Crawling n depth]\<rparr>)"
  using assms unfolding crawl_rel_def by (intro exI [of _ "[Crawling n depth]"]) auto

lemma quiet_get_page: "quiet s (snd (get_page env url s))"
  by (auto simp: get_page_def Let_def quiet_def split: option.splits)

lemma quiet_is_image: "quiet s (snd (is_image env url s))"
  by (auto simp: is_image_def Let_def quiet_def split: option.splits sum.splits)

lemma quiet_images_loop: "quiet s (snd (images_loop env url imgs images s))"
proof (induction imgs arbitrary: images s)
  case Nil
  show ?case by (simp add: quiet_refl)
next
  case (Cons i imgs)
  show ?case
  proof (cases "strip is_space i = []")
    case True
    with Cons.IH show ?thesis by simp
  next
    case False
    show ?thesis
    proof (cases "urljoin (check_bracketed_host env) url (strip is_space i)")
      case (Inl e)
      with False show ?thesis by (simp add: quiet_refl)
    next
      case (Inr absolute_url)
      obtain r s1 where r: "is_image env absolute_url s = (r, s1)" by (cases "is_image env absolute_url s")
      then have q1: "quiet s s1" using quiet_is_image [of s env absolute_url] by simp
      show ?thesis
      proof (cases r)
        case (Inl e)
        with False Inr r q1 show ?thesis by simp
      next
        case inner: (Inr b)
        have "quiet s1 (snd (images_loop env url imgs images' s1))" for images'
          by (rule Cons.IH)
        with q1 have "quiet s (snd (images_loop env url imgs images' s1))" for images'
          by (rule quiet_trans)
        with False Inr r inner show ?thesis by (cases b) simp_all
      qed
    qed
  qed
qed

lemma quiet_get_all_images: "quiet s (snd (get_all_images env url s))"
proof -
  obtain r s1 where g: "get_page env url s = (r, s1)" by (cases "get_page env url s")
  then have q1: "quiet s s1" using quiet_get_page [of s env url] by simp
  show ?thesis
  proof (cases r)
    case None
    with g q1 show ?thesis by (simp add: get_all_images_def)
  next
    case (Some resp)
    have "quiet s1 (snd (images_loop env url (srcs resp) [] s1))" by (rule quiet_images_loop)
    with q1 have "quiet s (snd (images_loop env url (srcs resp) [] s1))" by (rule quiet_trans)
    with g Some show ?thesis by (auto simp: get_all_images_def split: prod.splits sum.splits)
  qed
qed

lemma quiet_get_all_links: "quiet s (snd (get_all_links env url base_url s))"
  using quiet_get_page [of s env url]
  by (auto simp: get_all_links_def split: prod.splits option.splits sum.splits)

lemma quiet_print: "pages_of [m] = [] \<Longrightarrow> quiet s (s\<lparr>stdout := stdout s @ [m]\<rparr>)"
  by (simp add: quiet_def)

lemma quiet_write:
  "pages_of [m] = [] \<Longrightarrow> quiet s (s\<lparr>files := fs, stdout := stdout s @ [m]\<rparr>)"
  by (simp add: quiet_def)

lemma quiet_download_image: "quiet s (download_image env img_url s)"
proof -
  obtain r s1 where g: "get_page env img_url s = (r, s1)" by (cases "get_page env img_url s")
  then have q1: "quiet s s1" using quiet_get_page [of s env img_url] by simp
  show ?thesis
  proof (cases r)
    case None
    with g q1 show ?thesis by (simp add: download_image_def)
  next
    case (Some resp)
    have "quiet s1 (download_image env img_url s)"
      by (simp add: download_image_def g Some Let_def quiet_print quiet_write split: sum.splits)
    with q1 show ?thesis by (rule quiet_trans)
  qed
qed

lemma quiet_download_images: "quiet s (download_images env img_urls s)"
proof (induction img_urls arbitrary: s)
  case Nil
  show ?case by (simp add: quiet_refl)
next
  case (Cons a img_urls)
  have "quiet s (download_image env a s)" by (rule quiet_download_image)
  moreover have "quiet (download_image env a s) (download_images env img_urls (download_image env a s))"
    by (rule Cons.IH)
  ultimately show ?case by (simp add: quiet_trans)
qed

lemma crawl_rel_crawl:
  "crawl_rel depth max_depth s (snd (crawl env url depth max_depth s))"
  "crawl_rel depth max_depth s (snd (crawl_links env links depth max_depth s))"
proof (induction env url depth max_depth s and env links depth max_depth s
    rule: crawl_crawl_links.induct)
  case (1 env url depth max_depth s)
  show ?case
  proof (cases "normalize_url (check_bracketed_host env) url")
    case (Inl e)
    then show ?thesis by (simp add: crawl.simps crawl_rel_refl)
  next
    case (Inr n)
    show ?thesis
    proof (cases "depth > max_depth \<or> n \<in> visited s")
      case True
      with Inr show ?thesis by (simp add: crawl.simps crawl_rel_refl)
    next
      case False
      define s1 where "s1 = s\<lparr>visited := insert n (visited s), stdout := stdout s @ [Crawling n depth]\<rparr>"
      obtain ri s2 where gi: "get_all_images env n s1 = (ri, s2)" by (cases "get_all_images env n s1")
      have r1: "crawl_rel depth max_depth s s1"
        unfolding s1_def using False by (intro crawl_rel_visit) auto
      have "quiet s1 s2" using quiet_get_all_images [of s1 env n] gi by simp
      then have r2: "crawl_rel depth max_depth s s2"
        using r1 by (blast intro: crawl_rel_trans quiet_crawl_rel)
      show ?thesis
      proof (cases ri)
        case (Inl e)
        with Inr False gi r2 show ?thesis by (simp add: crawl.simps s1_def [symmetric])
      next
        case images: (Inr images)
        define s3 where "s3 = download_images env images s2"
        have "quiet s2 s3" unfolding s3_def by (rule quiet_download_images)
        then have r3: "crawl_rel depth max_depth s s3"
          using r2 by (blast intro: crawl_rel_trans quiet_crawl_rel)
        show ?thesis
        proof (cases "depth < max_depth")
          case shallow: True
          obtain rl s4 where gl: "get_all_links env n n s3 = (rl, s4)"
            by (cases "get_all_links env n n s3")
          have "quiet s3 s4" using quiet_get_all_links [of s3 env n n] gl by simp
          then have r4: "crawl_rel depth max_depth s s4"
            using r3 by (blast intro: crawl_rel_trans quiet_crawl_rel)
          show ?thesis
          proof (cases rl)
            case (Inl e)
            with Inr False gi images shallow gl r4 show ?thesis
              by (simp add: crawl.simps s1_def [symmetric] s3_def [symmetric])
          next
            case links: (Inr links)
            have "crawl_rel (depth + 1) max_depth s4 (snd (crawl_links env links (depth + 1) max_depth s4))"
              using "1.IH" [OF Inr False s1_def gi [symmetric] images s3_def shallow gl [symmetric] links] .
            then have "crawl_rel depth max_depth s (snd (crawl_links env links (depth + 1) max_depth s4))"
              using r4 by (blast intro: crawl_rel_trans crawl_rel_deeper)
            with Inr False gi images shallow gl links show ?thesis
              by (simp add: crawl.simps s1_def [symmetric] s3_def [symmetric])
          qed
        next
          case False
          with Inr \<open>\<not> (depth > max_depth \<or> n \<in> visited s)\<close> gi images r3 show ?thesis
            by (simp add: crawl.simps s1_def [symmetric] s3_def [symmetric])
        qed
      qed
    qed
  qed
next
  case (2 env depth max_depth s)
  show ?case by (simp add: crawl_rel_refl)
next
  case (3 env link links depth max_depth s)
  show ?case
  proof (cases "is_valid_url (check_bracketed_host env) link")
    case False
    with "3.IH"(3) show ?thesis by simp
  next
    case True
    obtain r s1 where c: "crawl env link depth max_depth s = (r, s1)"
      by (cases "crawl env link depth max_depth s")
    have r1: "crawl_rel depth max_depth s s1" using "3.IH"(1) [OF True] c by simp
    show ?thesis
    proof (cases r)
      case (Some e)
      with True c r1 show ?thesis by simp
    next
      case None
      have "crawl_rel depth max_depth s1 (snd (crawl_links env links depth max_depth s1))"
        using "3.IH"(2) [OF True c [symmetric] None] .
      with r1 have "crawl_rel depth max_depth s (snd (crawl_links env links depth max_depth s1))"
        by (rule crawl_rel_trans)
      with True c None show ?thesis by simp
    qed
  qed
qed

lemma crawl_visited_returns:
  "normalize_url (check_bracketed_host env) url = Inr n \<Longrightarrow> n \<in> visited s \<Longrightarrow>
   crawl env url depth max_depth s = (None, s)"
  by (simp add: crawl.simps)

lemma cycle_links_A:
  "links_loop cycle_env ''http://a.com/A'' [''/B''] [] = Inr [''http://a.com/B'']"
  by code_simp

lemma cycle_links_B:
  "links_loop cycle_env ''http://a.com/B'' [''/A''] [] = Inr [''http://a.com/A'']"
  by code_simp

lemma cycle_norm:
  "normalize_url (check_bracketed_host cycle_env) ''http://a.com/A'' = Inr ''http://a.com/A''"
  "normalize_url (check_bracketed_host cycle_env) ''http://a.com/B'' = Inr ''http://a.com/B''"
  "is_valid_url (check_bracketed_host cycle_env) ''http://a.com/A''"
  "is_valid_url (check_bracketed_host cycle_env) ''http://a.com/B''"
  by code_simp+

lemma cycle_get:
  "session_get cycle_env k ''http://a.com/A'' = Some (html_page [''/B''] [])"
  "session_get cycle_env k ''http://a.com/B'' = Some (html_page [''/A''] [])"
  "list_of_set cycle_env xs = xs"
  by (simp_all add: cycle_env_def site_env_def)

lemma cycle_images:
  "get_all_images cycle_env ''http://a.com/A'' s = (Inr [], s\<lparr>requests := requests s @ [GET ''http://a.com/A'']\<rparr>)"
  "get_all_images cycle_env ''http://a.com/B'' s = (Inr [], s\<lparr>requests := requests s @ [GET ''http://a.com/B'']\<rparr>)"
  by (simp_all add: get_all_images_def get_page_def cycle_get html_page_def)

lemma cycle_links:
  "get_all_links cycle_env ''http://a.com/A'' ''http://a.com/A'' s =
     (Inr [''http://a.com/B''], s\<lparr>requests := requests s @ [GET ''http://a.com/A'']\<rparr>)"
  "get_all_links cycle_env ''http://a.com/B'' ''http://a.com/B'' s =
     (Inr [''http://a.com/A''], s\<lparr>requests := requests s @ [GET ''http://a.com/B'']\<rparr>)"
  by (simp_all add: get_all_links_def get_page_def cycle_get html_page_def cycle_links_A
      cycle_links_B del: links_loop.simps)

lemma cycle_run:
  assumes "2 \<le> m"
  shows "pages_of (stdout (snd (crawl cycle_env ''http://a.com/A'' 0 m (init_state fs)))) =
     [(''http://a.com/A'', 0), (''http://a.com/B'', 1)]"
  using assms
  by (simp add: crawl.simps cycle_norm cycle_images cycle_links init_state_def)

section \<open>Visiting\<close>

text \<open>
  C1.  In every call of \<open>crawl\<close>, from any state, the pages processed (announced by a
  \<open>Crawling\<close> line) are pairwise different and are exactly the URLs the call adds to
  \<open>visited\<close>; a call whose normalised URL is already in \<open>visited\<close> returns at once and
  changes nothing.  On two pages that link to each other, \<open>crawl\<close> from the first with
  depth 0 and any maximum depth of at least 2 processes each of the two exactly once.
\<close>

theorem crawl_at_most_once:
  "(\<exists>ms. stdout (snd (crawl env url depth max_depth s)) = stdout s @ ms \<and>
         distinct (map fst (pages_of ms)) \<and>
         fst ` set (pages_of ms) = visited (snd (crawl env url depth max_depth s)) - visited s) \<and>
   (normalize_url (check_bracketed_host env) url = Inr n \<and> n \<in> visited s \<longrightarrow>
      crawl env url depth max_depth s = (None, s)) \<and>
   (2 \<le> m \<longrightarrow>
      pages_of (stdout (snd (crawl cycle_env ''http://a.com/A'' 0 m (init_state fs)))) =
        [(''http://a.com/A'', 0), (''http://a.com/B'', 1)])"
proof (intro conjI impI)
  from crawl_rel_crawl(1) [of depth max_depth s env url]
  show "\<exists>ms. stdout (snd (crawl env url depth max_depth s)) = stdout s @ ms \<and>
         distinct (map fst (pages_of ms)) \<and>
         fst ` set (pages_of ms) = visited (snd (crawl env url depth max_depth s)) - visited s"
    unfolding crawl_rel_def by blast
next
  assume "normalize_url (check_bracketed_host env) url = Inr n \<and> n \<in> visited s"
  then show "crawl env url depth max_depth s = (None, s)"
    by (simp add: crawl_visited_returns)
next
  assume "2 \<le> m"
  then show "pages_of (stdout (snd (crawl cycle_env ''http://a.com/A'' 0 m (init_state fs)))) =
        [(''http://a.com/A'', 0), (''http://a.com/B'', 1)]"
    by (rule cycle_run)
qed

theorem crawl_at_most_once_witness:
  "pages_of (stdout (snd (crawl cycle_env ''http://a.com/A'' 0 2 (init_state [])))) =
     [(''http://a.com/A'', 0), (''http://a.com/B'', 1)] \<and>
   crawl cycle_env ''http://a.com/B'' 1 2
     ((init_state [])\<lparr>visited := {''http://a.com/B''}\<rparr>) =
     (None, (init_state [])\<lparr>visited := {''http://a.com/B''}\<rparr>)"
  using crawl_at_most_once [where env = cycle_env and url = "''http://a.com/B''" and depth = 1
      and max_depth = 2 and s = "(init_state [])\<lparr>visited := {''http://a.com/B''}\<rparr>"
      and n = "''http://a.com/B''" and m = 2 and fs = "[]"]
  by (simp add: cycle_norm)

text \<open>
  C2.  In every call of \<open>crawl\<close>, every page processed lies at a depth from the call's
  \<open>depth\<close> to \<open>max_depth\<close>, so none lies deeper than \<open>max_depth\<close>.  Where
  \<open>depth < max_depth\<close> fails, the call ends with the downloads of the page's images: no
  links are extracted.  On a chain of four pages with maximum depth 1, the visited set at
  the end is the first two pages.
\<close>

theorem crawl_depth_bound:
  "(\<exists>ms. stdout (snd (crawl env url depth max_depth s)) = stdout s @ ms \<and>
         list_all (\<lambda>(u, k). depth \<le> k \<and> k \<le> max_depth) (pages_of ms)) \<and>
   (normalize_url (check_bracketed_host env) url = Inr n \<and> n \<notin> visited s \<and> depth = max_depth \<longrightarrow>
      crawl env url depth max_depth s =
        (case get_all_images env n
                (s\<lparr>visited := insert n (visited s), stdout := stdout s @ [Crawling n depth]\<rparr>) of
           (Inl e, s2) \<Rightarrow> (Some e, s2)
         | (Inr images, s2) \<Rightarrow> (None, download_images env images s2))) \<and>
   (max_depth < depth \<longrightarrow> snd (crawl env url depth max_depth s) = s) \<and>
   visited (snd (crawl chain_env ''http://a.com/A'' 0 1 (init_state []))) =
     {''http://a.com/A'', ''http://a.com/B''}"
proof (intro conjI impI)
  assume "max_depth < depth"
  then show "snd (crawl env url depth max_depth s) = s"
    by (simp add: crawl.simps split: sum.splits)
next
  from crawl_rel_crawl(1) [of depth max_depth s env url]
  show "\<exists>ms. stdout (snd (crawl env url depth max_depth s)) = stdout s @ ms \<and>
         list_all (\<lambda>(u, k). depth \<le> k \<and> k \<le> max_depth) (pages_of ms)"
    unfolding crawl_rel_def by blast
next
  assume "normalize_url (check_bracketed_host env) url = Inr n \<and> n \<notin> visited s \<and> depth = max_depth"
  then show "crawl env url depth max_depth s =
        (case get_all_images env n
                (s\<lparr>visited := insert n (visited s), stdout := stdout s @ [Crawling n depth]\<rparr>) of
           (Inl e, s2) \<Rightarrow> (Some e, s2)
         | (Inr images, s2) \<Rightarrow> (None, download_images env images s2))"
    by (simp add: crawl.simps split: prod.splits sum.splits)
next
  show "visited (snd (crawl chain_env ''http://a.com/A'' 0 1 (init_state []))) =
     {''http://a.com/A'', ''http://a.com/B''}"
    by code_simp
qed

theorem crawl_depth_bound_witness:
  "pages_of (stdout (snd (crawl chain_env ''http://a.com/A'' 0 1 (init_state [])))) =
     [(''http://a.com/A'', 0), (''http://a.com/B'', 1)] \<and>
   visited (snd (crawl chain_env ''http://a.com/A'' 0 1 (init_state []))) =
     {''http://a.com/A'', ''http://a.com/B''} \<and>
   requests (snd (crawl chain_env ''http://a.com/B'' 1 1 (init_state []))) = [GET ''http://a.com/B'']"
proof -
  have p: "pages_of (stdout (snd (crawl chain_env ''http://a.com/A'' 0 1 (init_state [])))) =
     [(''http://a.com/A'', 0), (''http://a.com/B'', 1)]"
    by code_simp
  have n: "normalize_url (check_bracketed_host chain_env) ''http://a.com/B'' = Inr ''http://a.com/B''"
    by code_simp
  have g: "get_all_images chain_env ''http://a.com/B''
      ((init_state [])\<lparr>visited := insert ''http://a.com/B'' (visited (init_state [])),
         stdout := stdout (init_state []) @ [Crawling ''http://a.com/B'' 1]\<rparr>) =
      (Inr [], \<lparr>visited = {''http://a.com/B''}, download_path = ''./data/'',
         stdout = [Crawling ''http://a.com/B'' 1], requests = [GET ''http://a.com/B''], files = []\<rparr>)"
    by code_simp
  from crawl_depth_bound [where env = chain_env and url = "''http://a.com/B''" and depth = 1
      and max_depth = 1 and s = "init_state []" and n = "''http://a.com/B''"] n g p
  show ?thesis by (simp add: init_state_def)
qed

lemma crawl_after_visit:
  assumes n: "normalize_url (check_bracketed_host env) url = Inr n"
    and new: "\<not> (depth > max_depth \<or> n \<in> visited s)"
  shows "crawl_rel depth max_depth
           (s\<lparr>visited := insert n (visited s), stdout := stdout s @ [Crawling n depth]\<rparr>)
           (snd (crawl env url depth max_depth s))"
proof -
  define s1 where "s1 = s\<lparr>visited := insert n (visited s), stdout := stdout s @ [Crawling n depth]\<rparr>"
  obtain ri s2 where gi: "get_all_images env n s1 = (ri, s2)" by (cases "get_all_images env n s1")
  have "quiet s1 s2" using quiet_get_all_images [of s1 env n] gi by simp
  then have r2: "crawl_rel depth max_depth s1 s2" by (rule quiet_crawl_rel)
  show ?thesis
  proof (cases ri)
    case (Inl e)
    with n new gi r2 show ?thesis by (simp add: crawl.simps s1_def [symmetric])
  next
    case images: (Inr images)
    define s3 where "s3 = download_images env images s2"
    have "quiet s2 s3" unfolding s3_def by (rule quiet_download_images)
    then have r3: "crawl_rel depth max_depth s1 s3"
      using r2 by (blast intro: crawl_rel_trans quiet_crawl_rel)
    show ?thesis
    proof (cases "depth < max_depth")
      case False
      with n new gi images r3 show ?thesis
        by (simp add: crawl.simps s1_def [symmetric] s3_def [symmetric])
    next
      case True
      obtain rl s4 where gl: "get_all_links env n n s3 = (rl, s4)"
        by (cases "get_all_links env n n s3")
      have "quiet s3 s4" using quiet_get_all_links [of s3 env n n] gl by simp
      then have r4: "crawl_rel depth max_depth s1 s4"
        using r3 by (blast intro: crawl_rel_trans quiet_crawl_rel)
      show ?thesis
      proof (cases rl)
        case (Inl e)
        with n new gi images True gl r4 show ?thesis
          by (simp add: crawl.simps s1_def [symmetric] s3_def [symmetric])
      next
        case links: (Inr links)
        have "crawl_rel depth max_depth s4 (snd (crawl_links env links (depth + 1) max_depth s4))"
          by (rule crawl_rel_deeper) (rule crawl_rel_crawl(2))
        with r4 have "crawl_rel depth max_depth s1 (snd (crawl_links env links (depth + 1) max_depth s4))"
          by (rule crawl_rel_trans)
        with n new gi images True gl links show ?thesis
          by (simp add: crawl.simps s1_def [symmetric] s3_def [symmetric])
      qed
    qed
  qed
qed

lemma colon_url_invalid: "\<not> is_valid_url chk ('':'' @ x)"
proof -
  have sc: "split_scheme (CHR '':'' # y) [] = ([], CHR '':'' # y)" for y
    by (simp add: split_scheme_def str_before_def)
  have "urlsplit chk ('':'' @ x) [] =
      split_rest chk [] (CHR '':'' # filter (\<lambda>c. \<not> unsafe_url_byte c) x)"
    by (simp add: urlsplit_def lstrip_def strip_def rstrip_def c0_control_or_space_def
        unsafe_url_byte_def sc)
  then have "urlsplit chk ('':'' @ x) [] = Inr (a, b, c, d, e) \<Longrightarrow> a = []" for a b c d e
    using split_rest_Inr(1) [of chk "[]" _ a b c d e] by simp
  then have "urlparse chk ('':'' @ x) [] = Inr p \<Longrightarrow> scheme p = []" for p
    by (auto simp: urlparse_def split: sum.splits if_splits)
  then show ?thesis by (auto simp: is_valid_url_iff)
qed

text \<open>
  C10.  \<open>normalize_url\<close> validates nothing: whenever the input parses with an empty scheme
  and an empty network location, it returns \<open>://\<close> followed by the path without its
  trailing slashes, which \<open>is_valid_url\<close> rejects (under any bracketed-host check).
  \<open>crawl\<close> normalises before any validity check: called on such an input at a depth not
  beyond the maximum, with that value not yet visited, it adds the value to \<open>visited\<close> and
  announces it as the page it crawls.
\<close>

theorem normalize_url_no_validation:
  assumes "urlparse (check_bracketed_host env) url [] = Inr p"
    and "scheme p = []" and "netloc p = []"
  shows "normalize_url (check_bracketed_host env) url =
           Inr (''://'' @ rstrip (\<lambda>c. c = CHR ''/'') (path p)) \<and>
         \<not> is_valid_url chk (''://'' @ rstrip (\<lambda>c. c = CHR ''/'') (path p)) \<and>
         (depth \<le> max_depth \<and> ''://'' @ rstrip (\<lambda>c. c = CHR ''/'') (path p) \<notin> visited s \<longrightarrow>
            ''://'' @ rstrip (\<lambda>c. c = CHR ''/'') (path p)
              \<in> visited (snd (crawl env url depth max_depth s)) \<and>
            (\<exists>ms. stdout (snd (crawl env url depth max_depth s)) =
               stdout s @ Crawling (''://'' @ rstrip (\<lambda>c. c = CHR ''/'') (path p)) depth # ms))"
proof -
  define n where "n = ''://'' @ rstrip (\<lambda>c. c = CHR ''/'') (path p)"
  have n: "normalize_url (check_bracketed_host env) url = Inr n"
    using assms by (simp add: normalize_url_def n_def)
  have inv: "\<not> is_valid_url chk n"
    using colon_url_invalid [of chk "''//'' @ rstrip (\<lambda>c. c = CHR ''/'') (path p)"]
    by (simp add: n_def)
  have run: "n \<in> visited (snd (crawl env url depth max_depth s)) \<and>
      (\<exists>ms. stdout (snd (crawl env url depth max_depth s)) = stdout s @ Crawling n depth # ms)"
    if "depth \<le> max_depth \<and> n \<notin> visited s"
  proof -
    from that have "\<not> (depth > max_depth \<or> n \<in> visited s)" by auto
    from crawl_after_visit [OF n this] show ?thesis
      unfolding crawl_rel_def by auto
  qed
  from n inv run show ?thesis unfolding n_def by blast
qed

theorem normalize_url_no_validation_witness:
  "normalize_url (\<lambda>h. True) ''foo'' = Inr ''://foo'' \<and>
   \<not> is_valid_url (\<lambda>h. True) ''://foo'' \<and>
   ''://foo'' \<in> visited (snd (crawl (site_env []) ''foo'' 0 0 (init_state []))) \<and>
   (\<exists>ms. stdout (snd (crawl (site_env []) ''foo'' 0 0 (init_state []))) = Crawling ''://foo'' 0 # ms)"
proof -
  have p: "urlparse (check_bracketed_host (site_env [])) ''foo'' [] =
      Inr \<lparr>scheme = [], netloc = [], path = ''foo'', params = [], query = [], fragment = []\<rparr>"
    by code_simp
  have r: "rstrip (\<lambda>c. c = CHR ''/'') ''foo'' = ''foo''" by code_simp
  have c: "check_bracketed_host (site_env []) = (\<lambda>h. True)" by (simp add: site_env_def)
  from normalize_url_no_validation [OF p, where chk = "\<lambda>h. True" and depth = 0 and max_depth = 0
      and s = "init_state []"]
  show ?thesis by (simp add: r c init_state_def)
qed

section \<open>Failed fetches\<close>

lemma get_page_fails:
  "fetch_fails env (length (requests s)) url \<Longrightarrow>
   get_page env url s =
     (None, s\<lparr>requests := requests s @ [GET url], stdout := stdout s @ [ErrorFetching url]\<rparr>)"
  by (auto simp: get_page_def fetch_fails_def Let_def split: option.splits)

lemma get_all_images_fails:
  "fetch_fails env (length (requests s)) url \<Longrightarrow>
   get_all_images env url s =
     (Inr [], s\<lparr>requests := requests s @ [GET url], stdout := stdout s @ [ErrorFetching url]\<rparr>)"
  by (simp add: get_all_images_def get_page_fails)

lemma get_all_links_fails:
  "fetch_fails env (length (requests s)) url \<Longrightarrow>
   get_all_links env url base_url s =
     (Inr [], s\<lparr>requests := requests s @ [GET url], stdout := stdout s @ [ErrorFetching url]\<rparr>)"
  by (simp add: get_all_links_def get_page_fails)

text \<open>
  C3 (amended).  \<open>crawl\<close> fetches the page once for its images and, below the maximum
  depth, once more for its links.  If the fetches of the page fail (the first, and below the
  maximum depth also the second), \<open>crawl\<close> prints one error line per failed fetch and
  returns: it sends no other request, writes no file and processes no other page, and the
  URL is in \<open>visited\<close>, so a later \<open>crawl\<close> of it returns at once.
\<close>

theorem crawl_fetch_failure:
  assumes "normalize_url (check_bracketed_host env) url = Inr n"
    and "n \<notin> visited s" and "depth \<le> max_depth"
    and "fetch_fails env (length (requests s)) n"
    and "depth < max_depth \<longrightarrow> fetch_fails env (Suc (length (requests s))) n"
  shows "crawl env url depth max_depth s =
           (None, s\<lparr>visited := insert n (visited s),
                    stdout := stdout s @ Crawling n depth # ErrorFetching n #
                                (if depth < max_depth then [ErrorFetching n] else []),
                    requests := requests s @ GET n #
                                (if depth < max_depth then [GET n] else [])\<rparr>) \<and>
         (\<forall>s' depth' max_depth'. n \<in> visited s' \<longrightarrow>
            crawl env url depth' max_depth' s' = (None, s'))"
proof -
  define s1 where "s1 = s\<lparr>visited := insert n (visited s), stdout := stdout s @ [Crawling n depth]\<rparr>"
  define s2 where "s2 = s1\<lparr>requests := requests s1 @ [GET n], stdout := stdout s1 @ [ErrorFetching n]\<rparr>"
  have f1: "fetch_fails env (length (requests s1)) n" using assms(4) by (simp add: s1_def)
  have g1: "get_all_images env n s1 = (Inr [], s2)"
    unfolding s2_def using f1 by (rule get_all_images_fails)
  have f2: "fetch_fails env (length (requests s2)) n" if "depth < max_depth"
    using assms(5) that by (simp add: s1_def s2_def)
  have g2: "get_all_links env n n s2 =
      (Inr [], s2\<lparr>requests := requests s2 @ [GET n], stdout := stdout s2 @ [ErrorFetching n]\<rparr>)"
    if "depth < max_depth"
    using f2 [OF that] by (rule get_all_links_fails)
  have "crawl env url depth max_depth s =
      (None, if depth < max_depth
             then s2\<lparr>requests := requests s2 @ [GET n], stdout := stdout s2 @ [ErrorFetching n]\<rparr>
             else s2)"
    using assms(1,2,3) g1 g2 by (simp add: crawl.simps s1_def [symmetric])
  then have first: "crawl env url depth max_depth s =
           (None, s\<lparr>visited := insert n (visited s),
                    stdout := stdout s @ Crawling n depth # ErrorFetching n #
                                (if depth < max_depth then [ErrorFetching n] else []),
                    requests := requests s @ GET n #
                                (if depth < max_depth then [GET n] else [])\<rparr>)"
    by (simp add: s1_def s2_def)
  have "crawl env url depth' max_depth' s' = (None, s')" if "n \<in> visited s'" for s' depth' max_depth'
    using assms(1) that by (rule crawl_visited_returns)
  with first show ?thesis by blast
qed

theorem crawl_fetch_failure_witness:
  "crawl (site_env []) ''http://a.com/A'' 0 1 (init_state []) =
     (None, \<lparr>visited = {''http://a.com/A''}, download_path = ''./data/'',
             stdout = [Crawling ''http://a.com/A'' 0, ErrorFetching ''http://a.com/A'',
                       ErrorFetching ''http://a.com/A''],
             requests = [GET ''http://a.com/A'', GET ''http://a.com/A''], files = []\<rparr>)"
proof -
  have n: "normalize_url (check_bracketed_host (site_env [])) ''http://a.com/A'' = Inr ''http://a.com/A''"
    by code_simp
  have f: "fetch_fails (site_env []) k ''http://a.com/A''" for k
    by (simp add: fetch_fails_def site_env_def)
  from crawl_fetch_failure [OF n, where s = "init_state []" and depth = 0 and max_depth = 1] f
  show ?thesis by (simp add: init_state_def)
qed

text \<open>
  The first fetch of a page fails, the second succeeds: the links of the page are extracted
  and followed.
\<close>

theorem crawl_fetch_failure_then_links:
  "fetch_fails flaky_env (length (requests (init_state []))) ''http://a.com/A'' \<and>
   crawl flaky_env ''http://a.com/A'' 0 1 (init_state []) =
     (None, \<lparr>visited = {''http://a.com/B'', ''http://a.com/A''}, download_path = ''./data/'',
             stdout = [Crawling ''http://a.com/A'' 0, ErrorFetching ''http://a.com/A'',
                       Crawling ''http://a.com/B'' 1],
             requests = [GET ''http://a.com/A'', GET ''http://a.com/A'', GET ''http://a.com/B''],
             files = []\<rparr>)"
  by code_simp

section \<open>URLs that differ in a fragment or a trailing slash\<close>























section \<open>Image classification\<close>






section \<open>File names\<close>









section \<open>Where the code departs from its description\<close>

text \<open>
  C6.  The claim is that a blank last path segment gets the name \<open>image_<timestamp>\<close> and
  the download goes on.  The code does not: whenever the image is fetched and the last
  segment of its path is blank, \<open>download_image\<close> ends with the caught \<open>NameError\<close> of
  \<open>time.time()\<close>, prints the failure and writes no file.
\<close>

theorem download_image_blank_name:
  assumes "get_page env img_url s = (Some r, s1)"
    and "urlparse (check_bracketed_host env) img_url [] = Inr parsed"
    and "strip is_space (basename (path parsed)) = []"
  shows "download_image env img_url s = s1\<lparr>stdout := stdout s1 @ [FailedToDownload img_url NameError]\<rparr> \<and>
         files (download_image env img_url s) = files s"
proof -
  from assms(1) have "files s1 = files s"
    by (auto simp: get_page_def Let_def split: option.splits if_splits)
  with assms show ?thesis by (simp add: download_image_def)
qed

theorem download_image_blank_name_witness:
  "download_image slash_env ''http://a.com/img/'' (init_state []) =
     \<lparr>visited = {}, download_path = ''./data/'',
      stdout = [FailedToDownload ''http://a.com/img/'' NameError],
      requests = [GET ''http://a.com/img/''], files = []\<rparr>"
proof -
  have g: "get_page slash_env ''http://a.com/img/'' (init_state []) =
      (Some jpeg_response, (init_state [])\<lparr>requests := [GET ''http://a.com/img/'']\<rparr>)"
    by code_simp
  have p: "urlparse (check_bracketed_host slash_env) ''http://a.com/img/'' [] =
      Inr \<lparr>scheme = ''http'', netloc = ''a.com'', path = ''/img/'', params = [], query = [],
           fragment = []\<rparr>"
    by code_simp
  have b: "strip is_space (basename ''/img/'') = []" by code_simp
  from download_image_blank_name [OF g p] b show ?thesis by (simp add: init_state_def)
qed

text \<open>
  C4.  An \<open>href\<close> that, once trimmed, starts with \<open>#\<close> or with \<open>javascript:\<close> is
  skipped: the loop goes on with the set of links unchanged.  An \<open>href\<close> that is empty
  once trimmed is not skipped, against the claim: \<open>urljoin\<close> resolves it to the base URL,
  whose normal form joins the set of links when it is valid.
\<close>

theorem links_loop_filtering:
  "(startswith (strip is_space a) ''#'' \<or> startswith (strip is_space a) ''javascript:'' \<longrightarrow>
      links_loop env base_url (a # anchors) links = links_loop env base_url anchors links) \<and>
   (strip is_space a = [] \<and> base_url \<noteq> [] \<and>
    normalize_url (check_bracketed_host env) base_url = Inr n \<and>
    is_valid_url (check_bracketed_host env) n \<longrightarrow>
      links_loop env base_url (a # anchors) links = links_loop env base_url anchors (set_add n links))"
proof (intro conjI impI)
  assume "startswith (strip is_space a) ''#'' \<or> startswith (strip is_space a) ''javascript:''"
  then show "links_loop env base_url (a # anchors) links = links_loop env base_url anchors links"
    by (auto simp: Let_def)
next
  assume e: "strip is_space a = [] \<and> base_url \<noteq> [] \<and>
    normalize_url (check_bracketed_host env) base_url = Inr n \<and>
    is_valid_url (check_bracketed_host env) n"
  then have j: "urljoin (check_bracketed_host env) base_url [] = Inr base_url"
    by (simp add: urljoin_def)
  have "\<not> startswith [] ''#''" "\<not> startswith [] ''javascript:''"
    by (simp_all add: startswith_def)
  with e j show "links_loop env base_url (a # anchors) links =
      links_loop env base_url anchors (set_add n links)"
    by (simp add: Let_def)
qed

theorem links_loop_filtering_witness:
  "links_loop anchors_env ''http://a.com/x'' [''#top'', ''javascript:void(0)''] [] = Inr [] \<and>
   links_loop anchors_env ''http://a.com/x'' [''''] [] = Inr [''http://a.com/x''] \<and>
   get_all_links anchors_env ''http://a.com/x'' ''http://a.com/x'' (init_state []) =
     (Inr [''http://a.com/x''], (init_state [])\<lparr>requests := [GET ''http://a.com/x'']\<rparr>)"
proof -
  have s: "strip is_space ''#top'' = ''#top''"
    "strip is_space ''javascript:void(0)'' = ''javascript:void(0)''" "strip is_space [] = []"
    by code_simp+
  have w: "startswith ''#top'' ''#''" "startswith ''javascript:void(0)'' ''javascript:''"
    by code_simp+
  have n: "normalize_url (check_bracketed_host anchors_env) ''http://a.com/x'' = Inr ''http://a.com/x''"
    "is_valid_url (check_bracketed_host anchors_env) ''http://a.com/x''"
    by code_simp+
  have a: "links_loop anchors_env ''http://a.com/x'' [''#top'', ''javascript:void(0)''] [] = Inr []"
    using links_loop_filtering [of "''#top''" anchors_env "''http://a.com/x''" "[''javascript:void(0)'']" "[]"]
      links_loop_filtering [of "''javascript:void(0)''" anchors_env "''http://a.com/x''" "[]" "[]"] s w
    by (simp del: links_loop.simps(2) add: links_loop.simps(1))
  have b: "links_loop anchors_env ''http://a.com/x'' [''''] [] = Inr [''http://a.com/x'']"
    using links_loop_filtering [of "[]" anchors_env "''http://a.com/x''" "[]" "[]" "''http://a.com/x''"] s n
    by (simp del: links_loop.simps(2) add: links_loop.simps(1) set_add_def)
  have c: "get_all_links anchors_env ''http://a.com/x'' ''http://a.com/x'' (init_state []) =
     (Inr [''http://a.com/x''], (init_state [])\<lparr>requests := [GET ''http://a.com/x'']\<rparr>)"
    by code_simp
  from a b c show ?thesis by simp
qed

end
